theory Spec2Isabelle
  imports Complex_Main "HOL-Library.Multiset" "HOL-Library.FSet"
begin

section \<open>The position tracker of ICLBlob (PositionTracker.cpp)\<close>

text \<open>
  The tracker is instantiated for \<^verbatim>\<open>icl32s\<close> only, so a scalar is an integer. Scalars,
  identities, freshness counters and assignment entries are modelled as \<^typ>\<open>int\<close>: the
  integer arithmetic of the source on them (a difference of coordinates, a counter plus
  one) is taken without overflow, which is undefined in the source. The one computation
  in double precision, the entry of the cost matrix, is modelled with its rounding.
  A \<^verbatim>\<open>std::vector\<close> is a list, the \<^verbatim>\<open>std::deque\<close> of history frames is a list of lists
  (oldest frame first), and an index outside a container, undefined in the source, is the
  error \<open>OutOfRange\<close>.
\<close>

subsection \<open>Errors and checked container access\<close>

datatype error = InvalidArgument | AssertionFailed | OutOfRange

definition bindE :: "error + 'a \<Rightarrow> ('a \<Rightarrow> error + 'b) \<Rightarrow> error + 'b" where
  "bindE m f = (case m of Inl e \<Rightarrow> Inl e | Inr v \<Rightarrow> f v)"

text \<open>A \<^verbatim>\<open>for\<close> loop over an index range whose body may leave the containers.\<close>

fun foldE :: "('a \<Rightarrow> 's \<Rightarrow> error + 's) \<Rightarrow> 'a list \<Rightarrow> 's \<Rightarrow> error + 's" where
  "foldE f [] s = Inr s"
| "foldE f (x # xs) s = bindE (f x s) (foldE f xs)"

text \<open>\<^verbatim>\<open>v[i]\<close> read and \<^verbatim>\<open>v[i] = x\<close> written, for a vector or a deque.\<close>

definition vec_at :: "'a list \<Rightarrow> int \<Rightarrow> error + 'a" where
  "vec_at v i = (if 0 \<le> i \<and> i < int (length v) then Inr (v ! nat i) else Inl OutOfRange)"

definition vec_set :: "'a list \<Rightarrow> int \<Rightarrow> 'a \<Rightarrow> error + 'a list" where
  "vec_set v i x = (if 0 \<le> i \<and> i < int (length v) then Inr (v[nat i := x]) else Inl OutOfRange)"

text \<open>\<^verbatim>\<open>m[f][y]\<close> read and written in a deque of frames.\<close>

definition mat_at :: "int list list \<Rightarrow> int \<Rightarrow> int \<Rightarrow> error + int" where
  "mat_at m f y = bindE (vec_at m f) (\<lambda>fr. vec_at fr y)"

definition mat_set :: "int list list \<Rightarrow> int \<Rightarrow> int \<Rightarrow> int \<Rightarrow> error + int list list" where
  "mat_set m f y x =
     bindE (vec_at m f) (\<lambda>fr. bindE (vec_set fr y x) (\<lambda>fr'. vec_set m f fr'))"

subsection \<open>Constants and collaborators\<close>

definition BLIND_VALUE :: int where
  "BLIND_VALUE = 9999"

text \<open>
  Modelled from the spec: \<^verbatim>\<open>Extrapolator<valueType,int>::predict\<close> (Extrapolator.h is not
  part of the sources). Two samples \<open>(a, b)\<close>, older first: linear extrapolation
  \<open>b + (b - a)\<close>. Three samples \<open>(a, b, c)\<close>, oldest first:
  \<open>c + (c - b) + ((c - b) - (b - a))\<close>.
\<close>

definition Extrapolator_predict2 :: "int \<Rightarrow> int \<Rightarrow> int" where
  "Extrapolator_predict2 a b = b + (b - a)"

definition Extrapolator_predict3 :: "int \<Rightarrow> int \<Rightarrow> int \<Rightarrow> int" where
  "Extrapolator_predict3 a b c = c + (c - b) + ((c - b) - (b - a))"

text \<open>
  The entry of the cost matrix, \<^verbatim>\<open>(valueType)sqrt(pow(dx, 2) + pow(dy, 2))\<close>, is computed
  in double precision and cast back to the integer scalar, which truncates. It is modelled
  on integers, for IEEE 754 binary64 arithmetic with rounding to nearest, ties to even:
  \<^item> \<open>isqrt n\<close> is the integer part of the root of \<open>n\<close>, computed two bits at a time, and
    \<open>bit_length n\<close> the number of binary digits of \<open>n\<close>;
  \<^item> \<open>round_to_double n\<close> is the double nearest to the integer \<open>n\<close>, which is what the
    square \<^verbatim>\<open>pow(d, 2)\<close> of an integer and the sum of two such squares are rounded to
    (\<^verbatim>\<open>pow(d, 2)\<close> is taken to be the correctly rounded square);
  \<^item> \<open>double_sqrt_trunc s\<close> is the integer part of the double nearest to the root of
    \<open>s\<close>: with \<open>e\<close> the binary exponent of the root, that double is \<open>m / 2 ^ k\<close> for
    \<open>k = 52 - e\<close> and \<open>m\<close> the integer nearest to the root of \<open>s * 4 ^ k\<close>.
  The cast of a root above the largest 32-bit integer is undefined in the source and is
  here the same integer part.
\<close>

function isqrt :: "nat \<Rightarrow> nat" where
  "isqrt n = (if n < 2 then n
              else let r = 2 * isqrt (n div 4) in if (r + 1) * (r + 1) \<le> n then r + 1 else r)"
  by pat_completeness auto
termination
  by (relation "measure (\<lambda>n. n)") auto

declare isqrt.simps [simp del]

function bit_length :: "nat \<Rightarrow> nat" where
  "bit_length n = (if n = 0 then 0 else Suc (bit_length (n div 2)))"
  by pat_completeness auto
termination
  by (relation "measure (\<lambda>n. n)") auto

declare bit_length.simps [simp del]

definition round_to_double :: "nat \<Rightarrow> nat" where
  "round_to_double n =
     (if bit_length n \<le> 53 then n
      else
        let sh = bit_length n - 53; q = n div 2 ^ sh; r = n mod 2 ^ sh; h = 2 ^ (sh - 1)
        in (if r < h \<or> (r = h \<and> even q) then q else q + 1) * 2 ^ sh)"

definition double_sqrt_trunc :: "nat \<Rightarrow> nat" where
  "double_sqrt_trunc s =
     (if s = 0 then 0
      else
        let e = (bit_length s - 1) div 2; k = 52 - e; m0 = isqrt (s * 4 ^ k);
            m = (if s * 4 ^ k \<le> m0 * m0 + m0 then m0 else m0 + 1)
        in m div 2 ^ k)"

definition euclid_cast :: "int \<Rightarrow> int \<Rightarrow> int" where
  "euclid_cast dx dy =
     int (double_sqrt_trunc
            (round_to_double (round_to_double (nat (dx\<^sup>2)) + round_to_double (nat (dy\<^sup>2)))))"

text \<open>
  \<^verbatim>\<open>HungarianAlgorithm<valueType>::apply\<close> is an external collaborator
  (HungarianAlgorithm.h is not part of the sources): every function of the tracker that
  calls it takes it as the parameter \<open>solve\<close>. Its contract in the specification is
  that it returns a permutation of the row indices of the square cost matrix.
\<close>

type_synonym solver = "int list list \<Rightarrow> int list"

definition is_permutation :: "int list \<Rightarrow> nat \<Rightarrow> bool" where
  "is_permutation a n \<longleftrightarrow> sort a = map int [0..<n]"

definition solver_ok :: "solver \<Rightarrow> bool" where
  "solver_ok solve \<longleftrightarrow> (\<forall>M. is_permutation (solve M) (length M))"

subsection \<open>Row removal\<close>

text \<open>
  \<^verbatim>\<open>removeElemsFromVector(v, rows)\<close>: the first loop walks \<open>v\<close> and \<open>rows\<close> together and
  skips the element whose index is the current entry of \<open>rows\<close>; the second loop copies
  what is left of \<open>v\<close>.
\<close>

function removeElems_loop :: "'a list \<Rightarrow> int list \<Rightarrow> nat \<Rightarrow> nat \<Rightarrow> 'a list \<Rightarrow> 'a list" where
  "removeElems_loop v rws r vidx newV =
     (if vidx < length v \<and> r < length rws then
        (if rws ! r \<noteq> int vidx then removeElems_loop v rws r (vidx + 1) (newV @ [v ! vidx])
         else removeElems_loop v rws (r + 1) (vidx + 1) newV)
      else newV @ drop vidx v)"
  by pat_completeness auto
termination
  by (relation "measure (\<lambda>(v, rws, r, vidx, newV). length v - vidx)") auto

declare removeElems_loop.simps [simp del]

definition removeElemsFromVector :: "'a list \<Rightarrow> int list \<Rightarrow> 'a list" where
  "removeElemsFromVector v rws = removeElems_loop v rws 0 0 []"

text \<open>
  \<^verbatim>\<open>removeRowsFromDataMatrix(m, rows)\<close> for one axis: the frames \<open>md[0]\<close>, \<open>md[1]\<close>,
  \<open>md[2]\<close> are filtered; a deque with fewer than three frames is left by \<open>md[x]\<close>.
\<close>

definition removeRowsFromDataMatrix :: "int list list \<Rightarrow> int list \<Rightarrow> error + int list list" where
  "removeRowsFromDataMatrix md rws =
     foldE (\<lambda>x m. bindE (vec_at m (int x)) (\<lambda>v. vec_set m (int x) (removeElemsFromVector v rws)))
       [0..<3] md"

subsection \<open>Cost matrix\<close>

text \<open>
  Modelled from the spec: the macro \<^verbatim>\<open>ICLASSERT\<close> (its definition is not part of the
  sources) is a precondition check that fails the call, here with \<open>AssertionFailed\<close>.
  \<^verbatim>\<open>createDistMat(a, b)\<close>: \<open>a\<close> is the pair of predicted coordinate vectors, \<open>b\<close> the
  pair of observed ones; the entry \<open>m[i][j]\<close> is computed from \<open>a[j]\<close> and \<open>b[i]\<close>.
\<close>

definition dist_entry :: "int list \<times> int list \<Rightarrow> int list \<times> int list \<Rightarrow> nat \<Rightarrow> nat \<Rightarrow> error + int" where
  "dist_entry a b i j =
     bindE (vec_at (fst a) (int j)) (\<lambda>ax.
     bindE (vec_at (fst b) (int i)) (\<lambda>bx.
     bindE (vec_at (snd a) (int j)) (\<lambda>ay.
     bindE (vec_at (snd b) (int i)) (\<lambda>by.
       Inr (euclid_cast (ax - bx) (ay - by))))))"

definition createDistMat :: "int list \<times> int list \<Rightarrow> int list \<times> int list \<Rightarrow> error + int list list" where
  "createDistMat a b =
     (if length (fst a) \<noteq> length (fst b) then Inl AssertionFailed
      else
        let dimn = length (fst a) in
        foldE (\<lambda>i m.
            bindE (foldE (\<lambda>j row. bindE (dist_entry a b i j) (\<lambda>d. Inr (row @ [d]))) [0..<dimn] [])
              (\<lambda>row. Inr (m @ [row])))
          [0..<dimn] [])"

subsection \<open>Prediction\<close>

text \<open>\<^verbatim>\<open>predict(dim, data, good)\<close>: one predicted scalar for each of the first \<open>dim\<close> slots.\<close>

definition predict_slot :: "int list list \<Rightarrow> int list \<Rightarrow> nat \<Rightarrow> error + int" where
  "predict_slot data good y =
     bindE (vec_at good (int y)) (\<lambda>g.
       if g = 1 then mat_at data 2 (int y)
       else if g = 2 then
         bindE (mat_at data 1 (int y)) (\<lambda>b.
         bindE (mat_at data 2 (int y)) (\<lambda>c. Inr (Extrapolator_predict2 b c)))
       else
         bindE (mat_at data 0 (int y)) (\<lambda>a.
         bindE (mat_at data 1 (int y)) (\<lambda>b.
         bindE (mat_at data 2 (int y)) (\<lambda>c. Inr (Extrapolator_predict3 a b c)))))"

definition predict :: "nat \<Rightarrow> int list list \<Rightarrow> int list \<Rightarrow> error + int list" where
  "predict dimn data good =
     foldE (\<lambda>y pred. bindE (predict_slot data good y) (\<lambda>p. Inr (pred @ [p]))) [0..<dimn] []"

subsection \<open>Identities\<close>

text \<open>
  \<^verbatim>\<open>get_n_new_ids(currentIDS, n)\<close>: \<open>lut\<close> is the \<^verbatim>\<open>std::set\<close> of the identities in use;
  \<open>find_free\<close> is the inner \<^verbatim>\<open>while\<close> loop, which advances \<open>id\<close> past the members of
  \<open>lut\<close>.
\<close>

function find_free :: "int fset \<Rightarrow> int \<Rightarrow> int" where
  "find_free lut i = (if i |\<in>| lut then find_free lut (i + 1) else i)"
  by pat_completeness auto
termination
proof (relation "measure (\<lambda>(lut, i). nat (Max (fset lut) + 1 - i))")
  show "wf (measure (\<lambda>(lut, i). nat (Max (fset lut) + 1 - i)))"
    by simp
next
  fix lut :: "int fset" and i :: int
  assume "i |\<in>| lut"
  then have "i \<le> Max (fset lut)"
    by simp
  then have "nat (Max (fset lut) + 1 - (i + 1)) < nat (Max (fset lut) + 1 - i)"
    by linarith
  then show "((lut, i + 1), (lut, i)) \<in> measure (\<lambda>(lut, i). nat (Max (fset lut) + 1 - i))"
    unfolding in_measure by (simp only: prod.case)
qed

declare find_free.simps [simp del]

fun mint_ids :: "nat \<Rightarrow> int fset \<Rightarrow> int \<Rightarrow> int list \<Rightarrow> int list" where
  "mint_ids 0 lut i ids = ids"
| "mint_ids (Suc n) lut i ids =
     (let i' = find_free lut i in mint_ids n (finsert i' lut) i' (ids @ [i']))"

definition get_n_new_ids :: "int list \<Rightarrow> int \<Rightarrow> int list" where
  "get_n_new_ids currentIDS n = mint_ids (nat n) (fset_of_list currentIDS) 0 []"

subsection \<open>The tracker and its tick\<close>

text \<open>
  The members of \<^verbatim>\<open>PositionTracker<icl32s>\<close>: \<^verbatim>\<open>m_matData[X]\<close> and \<^verbatim>\<open>m_matData[Y]\<close>
  (the history deques), \<^verbatim>\<open>m_vecIDs\<close>, \<^verbatim>\<open>m_vecCurrentAssignment\<close> and
  \<^verbatim>\<open>m_vecGoodDataCount\<close> (the freshness counters). The internal functions of the source
  receive these members by reference; here they take the tracker and return it updated.
  Modelled from the spec: the class declaration (PositionTracker.h is not part of the
  sources) has no constructor arguments, and a new tracker has empty members; the test
  \<^verbatim>\<open>!m_matData[X].size()\<close> of \<^verbatim>\<open>pushData\<close> for its first call relies on the same.
\<close>

record tracker =
  m_matData_X :: "int list list"
  m_matData_Y :: "int list list"
  m_vecIDs :: "int list"
  m_vecCurrentAssignment :: "int list"
  m_vecGoodDataCount :: "int list"

definition fresh_tracker :: tracker where
  "fresh_tracker = \<lparr>m_matData_X = [], m_matData_Y = [], m_vecIDs = [],
     m_vecCurrentAssignment = [], m_vecGoodDataCount = []\<rparr>"

text \<open>The result of a tick: the members updated, the call returned early with the members
  as they were, or the tick left a container or failed an assertion.\<close>

datatype outcome = Updated tracker | Refused error tracker | Aborted error

definition finish :: "error + tracker \<Rightarrow> outcome" where
  "finish r = (case r of Inl e \<Rightarrow> Aborted e | Inr t \<Rightarrow> Updated t)"

text \<open>\<^verbatim>\<open>push_and_rearrange_data\<close>: the loop body and the function.\<close>

definition arrange_step ::
  "int list \<Rightarrow> int list \<times> int list \<Rightarrow> nat \<Rightarrow> int list \<times> int list \<Rightarrow> error + int list \<times> int list" where
  "arrange_step assignment newData i arranged =
     bindE (vec_at assignment (int i)) (\<lambda>k.
     bindE (vec_at (fst newData) (int i)) (\<lambda>x.
     bindE (vec_set (fst arranged) k x) (\<lambda>aX.
     bindE (vec_at (snd newData) (int i)) (\<lambda>y.
     bindE (vec_set (snd arranged) k y) (\<lambda>aY. Inr (aX, aY))))))"

definition push_and_rearrange_data ::
  "nat \<Rightarrow> int list list \<times> int list list \<Rightarrow> int list \<Rightarrow> int list \<times> int list \<Rightarrow>
   error + int list list \<times> int list list" where
  "push_and_rearrange_data dimn data assignment newData =
     bindE (foldE (arrange_step assignment newData) [0..<dimn] (replicate dimn 0, replicate dimn 0))
       (\<lambda>arranged. Inr (tl (fst data @ [fst arranged]), tl (snd data @ [snd arranged])))"

definition push_data_intern_diff_zero ::
  "solver \<Rightarrow> nat \<Rightarrow> tracker \<Rightarrow> int list \<times> int list \<Rightarrow> error + tracker" where
  "push_data_intern_diff_zero solve dimn t newData =
     bindE (predict dimn (m_matData_X t) (m_vecGoodDataCount t)) (\<lambda>predX.
     bindE (predict dimn (m_matData_Y t) (m_vecGoodDataCount t)) (\<lambda>predY.
     bindE (createDistMat (predX, predY) newData) (\<lambda>distMat.
     let assignment = solve distMat in
     bindE (push_and_rearrange_data dimn (m_matData_X t, m_matData_Y t) assignment newData) (\<lambda>data.
       Inr (t\<lparr>m_matData_X := fst data, m_matData_Y := snd data,
              m_vecCurrentAssignment := assignment,
              m_vecGoodDataCount := map (\<lambda>g. g + 1) (m_vecGoodDataCount t)\<rparr>)))))"

definition push_data_intern_diff_gtz ::
  "solver \<Rightarrow> int \<Rightarrow> tracker \<Rightarrow> int list \<times> int list \<Rightarrow> error + tracker" where
  "push_data_intern_diff_gtz solve DIFF t newData0 =
     (let newData = (fst newData0 @ replicate (nat DIFF) BLIND_VALUE,
                     snd newData0 @ replicate (nat DIFF) BLIND_VALUE) in
      bindE (vec_at (m_matData_X t) 0) (\<lambda>frame0.
      let dimn = length frame0 in
      bindE (predict dimn (m_matData_X t) (m_vecGoodDataCount t)) (\<lambda>predX.
      bindE (predict dimn (m_matData_Y t) (m_vecGoodDataCount t)) (\<lambda>predY.
      bindE (createDistMat (predX, predY) newData) (\<lambda>distMat.
      let assignment = solve distMat in
      bindE (push_and_rearrange_data dimn (m_matData_X t, m_matData_Y t) assignment newData) (\<lambda>data.
      bindE (foldE (\<lambda>i del. bindE (vec_at assignment (int dimn - 1 - int i)) (\<lambda>a. Inr (del @ [a])))
               [0..<nat DIFF] []) (\<lambda>delRows0.
      let delRows = sort delRows0 in
      bindE (removeRowsFromDataMatrix (fst data) delRows) (\<lambda>dataX.
      bindE (removeRowsFromDataMatrix (snd data) delRows) (\<lambda>dataY.
        Inr (t\<lparr>m_matData_X := dataX, m_matData_Y := dataY,
               m_vecIDs := removeElemsFromVector (m_vecIDs t) delRows,
               m_vecCurrentAssignment := assignment,
               m_vecGoodDataCount :=
                 map (\<lambda>g. g + 1) (removeElemsFromVector (m_vecGoodDataCount t) delRows)\<rparr>))))))))))"

text \<open>The loops of \<^verbatim>\<open>push_data_intern_diff_ltz\<close>: padding the three frames of both axes
  with one blind value, collecting the values of the new columns, and backfilling one new
  slot.\<close>

definition push_back_frame :: "int list list \<Rightarrow> nat \<Rightarrow> int \<Rightarrow> error + int list list" where
  "push_back_frame m i x = bindE (vec_at m (int i)) (\<lambda>fr. vec_set m (int i) (fr @ [x]))"

definition pad_step ::
  "nat \<Rightarrow> int list list \<times> int list list \<Rightarrow> error + int list list \<times> int list list" where
  "pad_step j data =
     foldE (\<lambda>i d. bindE (push_back_frame (fst d) i BLIND_VALUE) (\<lambda>dX.
                   bindE (push_back_frame (snd d) i BLIND_VALUE) (\<lambda>dY. Inr (dX, dY))))
       [0..<3] data"

definition collect_step ::
  "int list \<Rightarrow> int list \<times> int list \<Rightarrow> int \<Rightarrow> nat \<Rightarrow> int list \<times> int list \<Rightarrow>
   error + int list \<times> int list" where
  "collect_step assignment newData bound x cols =
     bindE (vec_at assignment (int x)) (\<lambda>a.
       if a \<ge> bound then
         bindE (vec_at (fst newData) a) (\<lambda>vx.
         bindE (vec_at (snd newData) a) (\<lambda>vy. Inr (fst cols @ [vx], snd cols @ [vy])))
       else Inr cols)"

definition backfill_step ::
  "int list \<times> int list \<Rightarrow> int list \<Rightarrow> int \<Rightarrow> nat \<Rightarrow>
   (int list list \<times> int list list) \<times> int list \<times> int list \<Rightarrow>
   error + (int list list \<times> int list list) \<times> int list \<times> int list" where
  "backfill_step cols newIDS base i st =
     bindE (foldE (\<lambda>j d.
              bindE (vec_at (fst cols) (int i)) (\<lambda>vx.
              bindE (mat_set (fst d) (int j) (base + int i) vx) (\<lambda>dX.
              bindE (vec_at (snd cols) (int i)) (\<lambda>vy.
              bindE (mat_set (snd d) (int j) (base + int i) vy) (\<lambda>dY. Inr (dX, dY))))))
            [0..<3] (fst st)) (\<lambda>data.
     bindE (vec_at newIDS (int i)) (\<lambda>nid.
       Inr (data, fst (snd st) @ [nid], snd (snd st) @ [0])))"

text \<open>The two loops of \<^verbatim>\<open>push_data_intern_diff_ltz\<close> after the solver: the one over the
  columns \<open>x < dim\<close> that collects the values where \<open>assignment[x] \<ge> dim - DIFF\<close>, and the
  one over \<open>i < DIFF\<close> that backfills the new slots \<open>dim - DIFF + i\<close>.\<close>

definition collect_new_columns ::
  "int list \<Rightarrow> int list \<times> int list \<Rightarrow> nat \<Rightarrow> int \<Rightarrow> error + int list \<times> int list" where
  "collect_new_columns assignment newData dimn DIFF =
     foldE (collect_step assignment newData (int dimn - DIFF)) [0..<dimn] ([], [])"

definition backfill_new_slots ::
  "int list \<times> int list \<Rightarrow> int list \<Rightarrow> nat \<Rightarrow> int \<Rightarrow>
   (int list list \<times> int list list) \<times> int list \<times> int list \<Rightarrow>
   error + (int list list \<times> int list list) \<times> int list \<times> int list" where
  "backfill_new_slots cols newIDS dimn DIFF st =
     foldE (backfill_step cols newIDS (int dimn - DIFF)) [0..<nat DIFF] st"

text \<open>\<^verbatim>\<open>push_data_intern_diff_ltz\<close>. The first component of its result tells whether the
  warning about the number of collected columns was printed.\<close>

definition push_data_intern_diff_ltz ::
  "solver \<Rightarrow> int \<Rightarrow> tracker \<Rightarrow> int list \<times> int list \<Rightarrow> error + bool \<times> tracker" where
  "push_data_intern_diff_ltz solve DIFF0 t newData =
     (let DIFF = DIFF0 * (- 1) in
      bindE (foldE pad_step [0..<nat DIFF] (m_matData_X t, m_matData_Y t)) (\<lambda>data1.
      bindE (vec_at (fst data1) 0) (\<lambda>frame0.
      let dimn = length frame0;
          good1 = m_vecGoodDataCount t @ replicate (nat DIFF) 1 in
      bindE (predict dimn (fst data1) good1) (\<lambda>predX.
      bindE (predict dimn (snd data1) good1) (\<lambda>predY.
      let good2 = take (nat (int (length good1) - DIFF)) good1 in
      bindE (createDistMat (predX, predY) newData) (\<lambda>distMat.
      let assignment = solve distMat in
      bindE (collect_new_columns assignment newData dimn DIFF) (\<lambda>newDataColsValues.
      let warned = (int (length (fst newDataColsValues)) \<noteq> DIFF);
          newIDS = get_n_new_ids (m_vecIDs t) DIFF in
      bindE (backfill_new_slots newDataColsValues newIDS dimn DIFF (data1, m_vecIDs t, good2))
        (\<lambda>st.
      let good3 = map (\<lambda>g. g + 1) (snd (snd st)) in
      bindE (push_and_rearrange_data dimn (fst st) assignment newData) (\<lambda>data.
        Inr (warned,
             t\<lparr>m_matData_X := fst data, m_matData_Y := snd data,
               m_vecIDs := fst (snd st),
               m_vecCurrentAssignment := assignment,
               m_vecGoodDataCount := good3\<rparr>))))))))))"

text \<open>\<^verbatim>\<open>push_data_intern_first_step\<close>: three copies of the batch become the history,
  \<^verbatim>\<open>ids.resize(n)\<close> and the loop that writes \<open>ids[i] = i\<close> and pushes a freshness of 1.\<close>

definition resize_vec :: "nat \<Rightarrow> int list \<Rightarrow> int list" where
  "resize_vec n v = take n v @ replicate (n - length v) 0"

definition push_data_intern_first_step :: "tracker \<Rightarrow> int list \<times> int list \<Rightarrow> tracker" where
  "push_data_intern_first_step t newData =
     (let dataX = m_matData_X t @ replicate 3 (fst newData);
          dataY = m_matData_Y t @ replicate 3 (snd newData);
          n = length (fst newData);
          st = fold (\<lambda>i s. ((fst s)[i := int i], snd s @ [1])) [0..<n]
                 (resize_vec n (m_vecIDs t), m_vecGoodDataCount t)
      in t\<lparr>m_matData_X := dataX, m_matData_Y := dataY,
            m_vecIDs := fst st, m_vecGoodDataCount := snd st\<rparr>)"

text \<open>
  \<^verbatim>\<open>PositionTracker::pushData(dataXs, dataYs)\<close>. Of the growth path it keeps the tracker;
  the warning is output only.
  Modelled from the spec: the macro \<^verbatim>\<open>ICLASSERT_RETURN\<close> (its definition is not part of
  the sources) returns from the call when its condition fails; the failure is named
  \<open>InvalidArgument\<close>.
\<close>

definition pushData :: "solver \<Rightarrow> tracker \<Rightarrow> int list \<Rightarrow> int list \<Rightarrow> outcome" where
  "pushData solve t dataXs dataYs =
     (if \<not> length dataXs > 0 then Refused InvalidArgument t
      else if \<not> length dataXs = length dataYs then Refused InvalidArgument t
      else
        let newData = (dataXs, dataYs) in
        if length (m_matData_X t) = 0 then Updated (push_data_intern_first_step t newData)
        else
          let DATA_MATRIX_HEIGHT = int (length (m_matData_X t ! 0));
              NEW_DATA_DIMENSION = int (length dataXs);
              DIFF = DATA_MATRIX_HEIGHT - NEW_DATA_DIMENSION
          in if DIFF < 0 then
               finish (bindE (push_data_intern_diff_ltz solve DIFF t newData) (\<lambda>r. Inr (snd r)))
             else if DIFF > 0 then finish (push_data_intern_diff_gtz solve DIFF t newData)
             else finish (push_data_intern_diff_zero solve (nat DATA_MATRIX_HEIGHT) t newData))"

text \<open>\<^verbatim>\<open>PositionTracker::getID(x, y)\<close>: the scan of the newest frame, and the function.\<close>

fun getID_scan :: "int list \<Rightarrow> int list \<Rightarrow> int list \<Rightarrow> int \<Rightarrow> int \<Rightarrow> nat list \<Rightarrow> error + int" where
  "getID_scan rX rY ids x y [] = Inr (- 1)"
| "getID_scan rX rY ids x y (i # is) =
     bindE (vec_at rX (int i)) (\<lambda>a.
       if a = x then
         bindE (vec_at rY (int i)) (\<lambda>b.
           if b = y then vec_at ids (int i) else getID_scan rX rY ids x y is)
       else getID_scan rX rY ids x y is)"

definition getID :: "tracker \<Rightarrow> int \<Rightarrow> int \<Rightarrow> error + int" where
  "getID t x y =
     bindE (vec_at (m_matData_X t) 2) (\<lambda>rX.
     bindE (vec_at (m_matData_Y t) 2) (\<lambda>rY.
       getID_scan rX rY (m_vecIDs t) x y [0..<length rX]))"

text \<open>The vector that the loop of \<^verbatim>\<open>push_and_rearrange_data\<close> builds for one axis when
  every index stays inside its container: entry \<open>i\<close> of the new data is stored in slot
  \<open>assignment[i]\<close> of a vector of \<open>dimn\<close> zeros.\<close>

definition arranged :: "int list \<Rightarrow> int list \<Rightarrow> nat \<Rightarrow> int list" where
  "arranged assignment new dimn =
     fold (\<lambda>i ar. ar[nat (assignment ! i) := new ! i]) [0..<dimn] (replicate dimn 0)"

text \<open>The shape the members have between ticks: three frames of \<open>n\<close> scalars on each
  axis, \<open>n\<close> identities and \<open>n\<close> freshness counters.\<close>

definition tracker_shape :: "tracker \<Rightarrow> nat \<Rightarrow> bool" where
  "tracker_shape t n \<longleftrightarrow>
     map length (m_matData_X t) = replicate 3 n \<and>
     map length (m_matData_Y t) = replicate 3 n \<and>
     length (m_vecIDs t) = n \<and>
     length (m_vecGoodDataCount t) = n"

text \<open>The states of the tracker between ticks: no member holds anything yet, or the members
  have the shape above for the number of identities, which is positive.\<close>

definition tracker_inv :: "tracker \<Rightarrow> bool" where
  "tracker_inv t \<longleftrightarrow>
     (m_matData_X t = [] \<and> m_matData_Y t = [] \<and> m_vecIDs t = [] \<and> m_vecGoodDataCount t = []) \<or>
     (0 < length (m_vecIDs t) \<and> tracker_shape t (length (m_vecIDs t)))"

section \<open>Properties\<close>

subsection \<open>Checked access and loops\<close>

lemma bindE_Inr [simp]: "bindE (Inr v) f = f v"
  by (simp add: bindE_def)

lemma bindE_Inl [simp]: "bindE (Inl e) f = Inl e"
  by (simp add: bindE_def)

lemma vec_at_nat: "i < length v \<Longrightarrow> vec_at v (int i) = Inr (v ! i)"
  by (simp add: vec_at_def)

lemma vec_set_nat: "i < length v \<Longrightarrow> vec_set v (int i) x = Inr (v[i := x])"
  by (simp add: vec_set_def)

lemma foldE_push_back:
  "(\<And>x. x \<in> set xs \<Longrightarrow> h x = Inr (g x)) \<Longrightarrow>
   foldE (\<lambda>x acc. bindE (h x) (\<lambda>v. Inr (acc @ [v]))) xs acc = Inr (acc @ map g xs)"
  by (induction xs arbitrary: acc) simp_all

subsection \<open>Prediction\<close>

lemma predict_slot_ok:
  assumes "3 \<le> length data" "y < length (data ! 0)" "y < length (data ! 1)"
    "y < length (data ! 2)" "y < length good"
  shows "predict_slot data good y =
     Inr (if good ! y = 1 then data ! 2 ! y
          else if good ! y = 2 then Extrapolator_predict2 (data ! 1 ! y) (data ! 2 ! y)
          else Extrapolator_predict3 (data ! 0 ! y) (data ! 1 ! y) (data ! 2 ! y))"
proof -
  have "mat_at data 0 (int y) = Inr (data ! 0 ! y)"
    using assms by (auto simp add: mat_at_def vec_at_def)
  moreover have "mat_at data 1 (int y) = Inr (data ! 1 ! y)"
    using assms by (simp add: mat_at_def vec_at_def)
  moreover have "mat_at data 2 (int y) = Inr (data ! 2 ! y)"
    using assms by (simp add: mat_at_def vec_at_def)
  ultimately show ?thesis
    using assms by (simp add: predict_slot_def vec_at_nat)
qed

lemma predict_ok:
  assumes "3 \<le> length data" "dimn \<le> length (data ! 0)" "dimn \<le> length (data ! 1)"
    "dimn \<le> length (data ! 2)" "dimn \<le> length good"
  shows "predict dimn data good =
     Inr (map (\<lambda>y. if good ! y = 1 then data ! 2 ! y
          else if good ! y = 2 then Extrapolator_predict2 (data ! 1 ! y) (data ! 2 ! y)
          else Extrapolator_predict3 (data ! 0 ! y) (data ! 1 ! y) (data ! 2 ! y)) [0..<dimn])"
  unfolding predict_def
  using assms by (subst foldE_push_back [where g = "\<lambda>y. if good ! y = 1 then data ! 2 ! y
          else if good ! y = 2 then Extrapolator_predict2 (data ! 1 ! y) (data ! 2 ! y)
          else Extrapolator_predict3 (data ! 0 ! y) (data ! 1 ! y) (data ! 2 ! y)"])
     (simp_all add: predict_slot_ok)



subsection \<open>Queries and rejected batches\<close>

text \<open>
  C1. On a tracker on which \<^verbatim>\<open>pushData\<close> was never called, \<^verbatim>\<open>getID(x, y)\<close> does not
  return \<open>-1\<close>: it indexes frame 2 of the empty history deque, which is outside the
  container, for every coordinate pair.
\<close>

theorem getID_fresh_out_of_range: "getID fresh_tracker x y = Inl OutOfRange"
  by (simp add: getID_def fresh_tracker_def vec_at_def)

text \<open>
  C3. A call \<^verbatim>\<open>pushData(xs, ys)\<close> with an empty \<open>xs\<close>, or with \<open>xs\<close> and \<open>ys\<close> of
  different lengths, is refused with \<open>InvalidArgument\<close> and leaves every member of the
  tracker as it was before the call.
\<close>

theorem pushData_invalid_argument:
  "length xs = 0 \<or> length xs \<noteq> length ys \<Longrightarrow> pushData solve t xs ys = Refused InvalidArgument t"
  by (auto simp: pushData_def)

theorem pushData_invalid_argument_witness:
  "pushData (\<lambda>M. []) fresh_tracker [1, 2] [1] = Refused InvalidArgument fresh_tracker
   \<and> pushData (\<lambda>M. []) fresh_tracker [] [] = Refused InvalidArgument fresh_tracker"
  using pushData_invalid_argument [of "[1, 2]" "[1]" "\<lambda>M. []" fresh_tracker]
    pushData_invalid_argument [of "[]" "[]" "\<lambda>M. []" fresh_tracker]
  by simp

subsection \<open>The first batch\<close>

lemma first_step_loop:
  "k \<le> length v \<Longrightarrow>
   fold (\<lambda>i s. ((fst s)[i := int i], snd s @ [1])) [0..<k] (v, g)
     = (map int [0..<k] @ drop k v, g @ replicate k (1::int))"
proof (induction k)
  case 0
  then show ?case by simp
next
  case (Suc k)
  then have "k < length v" by simp
  then have "drop k v = v ! k # drop (Suc k) v"
    by (simp add: Cons_nth_drop_Suc)
  then have "(map int [0..<k] @ drop k v)[k := int k] = map int [0..<k] @ int k # drop (Suc k) v"
    by (simp add: list_update_append)
  moreover have "replicate k (1::int) @ [1] = 1 # replicate k 1"
    by (simp add: replicate_append_same)
  ultimately show ?case
    using Suc by simp
qed

lemma length_resize_vec: "length (resize_vec n v) = n"
  by (simp add: resize_vec_def)

lemma first_step_eq:
  "push_data_intern_first_step t (xs, ys) =
     t\<lparr>m_matData_X := m_matData_X t @ [xs, xs, xs], m_matData_Y := m_matData_Y t @ [ys, ys, ys],
       m_vecIDs := map int [0..<length xs],
       m_vecGoodDataCount := m_vecGoodDataCount t @ replicate (length xs) 1\<rparr>"
  using first_step_loop [of "length xs" "resize_vec (length xs) (m_vecIDs t)" "m_vecGoodDataCount t"]
  by (simp add: push_data_intern_first_step_def Let_def length_resize_vec numeral_3_eq_3)

lemma getID_scan_unique:
  assumes "i \<in> set js" "rX ! i = x" "rY ! i = y"
    and "\<forall>j\<in>set js. j < length rX \<and> j < length rY \<and> j < length ids"
    and "\<forall>j\<in>set js. rX ! j = x \<and> rY ! j = y \<longrightarrow> j = i"
  shows "getID_scan rX rY ids x y js = Inr (ids ! i)"
  using assms(1,4,5)
proof (induction js)
  case Nil
  then show ?case by simp
next
  case (Cons j js)
  have b: "vec_at rX (int j) = Inr (rX ! j)" "vec_at rY (int j) = Inr (rY ! j)"
    "vec_at ids (int j) = Inr (ids ! j)"
    using Cons.prems(2) by (simp_all add: vec_at_nat)
  show ?case
  proof (cases "rX ! j = x \<and> rY ! j = y")
    case True
    then have "j = i" using Cons.prems(3) by simp
    moreover from True have "getID_scan rX rY ids x y (j # js) = Inr (ids ! j)"
      by (simp add: b)
    ultimately show ?thesis by simp
  next
    case False
    then have "i \<noteq> j" using assms(2,3) by auto
    then have "i \<in> set js" using Cons.prems(1) by simp
    moreover have "\<forall>j\<in>set js. j < length rX \<and> j < length rY \<and> j < length ids"
      using Cons.prems(2) by simp
    moreover have "\<forall>j\<in>set js. rX ! j = x \<and> rY ! j = y \<longrightarrow> j = i"
      using Cons.prems(3) by simp
    ultimately have "getID_scan rX rY ids x y js = Inr (ids ! i)"
      by (rule Cons.IH)
    with False show ?thesis by (simp add: b)
  qed
qed

lemma distinct_zip_index:
  assumes "distinct (zip xs ys)" "length xs = length ys" "i < length xs" "j < length xs"
    "xs ! j = xs ! i" "ys ! j = ys ! i"
  shows "j = i"
proof -
  have "zip xs ys ! j = zip xs ys ! i"
    using assms by simp
  moreover have "j < length (zip xs ys)" "i < length (zip xs ys)"
    using assms by simp_all
  ultimately show ?thesis
    using assms(1) nth_eq_iff_index_eq by blast
qed

text \<open>
  C9. The first \<^verbatim>\<open>pushData(xs, ys)\<close> on a new tracker, with a batch of \<open>D > 0\<close> points,
  seeds all three history frames of each axis with the pushed values, assigns the
  identities \<open>0, ..., D - 1\<close> to the slots in order and sets every freshness counter to
  1; when the pushed points are pairwise distinct, \<^verbatim>\<open>getID(xs[i], ys[i])\<close> then returns
  \<open>i\<close> for every \<open>i < D\<close>.
\<close>

theorem first_batch_seeds_history:
  assumes "0 < length xs" "length xs = length ys"
  shows "\<exists>t'. pushData solve fresh_tracker xs ys = Updated t' \<and>
     m_matData_X t' = [xs, xs, xs] \<and> m_matData_Y t' = [ys, ys, ys] \<and>
     m_vecIDs t' = map int [0..<length xs] \<and>
     m_vecGoodDataCount t' = replicate (length xs) 1 \<and>
     (distinct (zip xs ys) \<longrightarrow> (\<forall>i<length xs. getID t' (xs ! i) (ys ! i) = Inr (int i)))"
proof -
  let ?t = "fresh_tracker\<lparr>m_matData_X := [xs, xs, xs], m_matData_Y := [ys, ys, ys],
       m_vecIDs := map int [0..<length xs],
       m_vecGoodDataCount := replicate (length xs) 1\<rparr>"
  have push: "pushData solve fresh_tracker xs ys = Updated ?t"
    using assms by (simp add: pushData_def Let_def first_step_eq fresh_tracker_def)
  have "getID ?t (xs ! i) (ys ! i) = Inr (int i)" if d: "distinct (zip xs ys)" and i: "i < length xs" for i
  proof -
    have "getID_scan xs ys (map int [0..<length xs]) (xs ! i) (ys ! i) [0..<length xs]
        = Inr (map int [0..<length xs] ! i)"
    proof (rule getID_scan_unique)
      show "i \<in> set [0..<length xs]" using i by simp
      show "\<forall>j\<in>set [0..<length xs].
          j < length xs \<and> j < length ys \<and> j < length (map int [0..<length xs])"
        using assms by simp
      show "\<forall>j\<in>set [0..<length xs]. xs ! j = xs ! i \<and> ys ! j = ys ! i \<longrightarrow> j = i"
        using distinct_zip_index [OF d assms(2) i] by simp
    qed simp_all
    then show ?thesis
      using i by (simp add: getID_def vec_at_def)
  qed
  with push show ?thesis
    by (intro exI [of _ ?t]) simp
qed

theorem first_batch_seeds_history_witness:
  "\<exists>t'. pushData (\<lambda>M. []) fresh_tracker [0, 10] [0, 10] = Updated t' \<and>
     m_matData_X t' = [[0, 10], [0, 10], [0, 10]] \<and>
     m_vecIDs t' = [0, 1] \<and> m_vecGoodDataCount t' = [1, 1] \<and>
     getID t' 0 0 = Inr 0 \<and> getID t' 10 10 = Inr 1"
proof -
  obtain t' where t: "pushData (\<lambda>M. []) fresh_tracker [0, 10] [0, 10] = Updated t'"
      "m_matData_X t' = [[0, 10], [0, 10], [0, 10]]"
      "m_vecIDs t' = [0, 1]"
      "m_vecGoodDataCount t' = [1, 1]"
    and g: "\<forall>i<Suc (Suc 0). getID t' ([0, 10] ! i) ([0, 10] ! i) = Inr (int i)"
    using first_batch_seeds_history [of "[0, 10]" "[0, 10]" "\<lambda>M. []"]
    by auto
  have "getID t' 0 0 = Inr 0" "getID t' 10 10 = Inr 1"
    using g [rule_format, of 0] g [rule_format, of 1] by simp_all
  with t show ?thesis
    by simp
qed

subsection \<open>The cost matrix\<close>

lemma isqrt_small: "n < 2 \<Longrightarrow> isqrt n = n"
  by (subst isqrt.simps) simp

lemma isqrt_step:
  "\<not> n < 2 \<Longrightarrow>
   isqrt n = (let r = 2 * isqrt (n div 4) in if (r + 1) * (r + 1) \<le> n then r + 1 else r)"
  by (subst isqrt.simps) simp

lemma isqrt_bounds: "isqrt n * isqrt n \<le> n \<and> n < (isqrt n + 1) * (isqrt n + 1)"
proof (induction n rule: isqrt.induct)
  case (1 n)
  show ?case
  proof (cases "n < 2")
    case True
    then have "isqrt n = n"
      by (rule isqrt_small)
    moreover have "n = 0 \<or> n = 1"
      using True by auto
    ultimately show ?thesis
      by auto
  next
    case False
    define q where "q = isqrt (n div 4)"
    have ih: "q * q \<le> n div 4" "n div 4 < (q + 1) * (q + 1)"
      using 1 False by (simp_all add: q_def)
    have lo: "(2 * q) * (2 * q) \<le> n"
    proof -
      have "4 * (q * q) \<le> 4 * (n div 4)"
        using ih(1) by simp
      also have "\<dots> \<le> n"
        by simp
      finally show ?thesis
        by (simp add: algebra_simps)
    qed
    have hi: "n < (2 * q + 2) * (2 * q + 2)"
    proof -
      have "n div 4 + 1 \<le> (q + 1) * (q + 1)"
        using ih(2) by simp
      then have "4 * (n div 4 + 1) \<le> 4 * ((q + 1) * (q + 1))"
        by simp
      moreover have "n < 4 * (n div 4 + 1)"
        by (simp add: algebra_simps)
      ultimately have "n < 4 * ((q + 1) * (q + 1))"
        by simp
      then show ?thesis
        by (simp add: algebra_simps)
    qed
    have eq: "isqrt n = (if (2 * q + 1) * (2 * q + 1) \<le> n then 2 * q + 1 else 2 * q)"
      using False by (simp add: isqrt_step q_def Let_def)
    show ?thesis
    proof (cases "(2 * q + 1) * (2 * q + 1) \<le> n")
      case True
      then have "isqrt n = 2 * q + 1" using eq by simp
      with True hi show ?thesis by (simp add: algebra_simps)
    next
      case False
      then have "isqrt n = 2 * q" using eq by simp
      with False lo show ?thesis by (simp add: algebra_simps)
    qed
  qed
qed

lemma bit_length_zero: "n = 0 \<Longrightarrow> bit_length n = 0"
  by (subst bit_length.simps) simp

lemma bit_length_pos: "n \<noteq> 0 \<Longrightarrow> bit_length n = Suc (bit_length (n div 2))"
  by (subst bit_length.simps) simp

lemma bit_length_le: "n < 2 ^ b \<Longrightarrow> bit_length n \<le> b"
proof (induction n arbitrary: b rule: bit_length.induct)
  case (1 n)
  show ?case
  proof (cases "n = 0")
    case True
    then show ?thesis by (simp add: bit_length_zero)
  next
    case False
    then obtain b' where b: "b = Suc b'"
      using "1.prems" by (cases b) auto
    then have "n div 2 < 2 ^ b'"
      using "1.prems" by auto
    then have "bit_length (n div 2) \<le> b'"
      using "1.IH" [OF False] by simp
    then show ?thesis
      using False b by (simp add: bit_length_pos)
  qed
qed

lemma round_to_double_exact: "n < 2 ^ 53 \<Longrightarrow> round_to_double n = n"
  using bit_length_le [of n 53] by (simp add: round_to_double_def)

lemma nat_less_of_sq_less: "(a::nat) * a < b * b \<Longrightarrow> a < b"
proof (rule ccontr)
  assume "a * a < b * b" "\<not> a < b"
  then have "b * b \<le> a * a"
    by (simp add: mult_le_mono)
  with \<open>a * a < b * b\<close> show False
    by simp
qed

lemma double_sqrt_trunc_exact:
  assumes "s < 2 ^ 52"
  shows "double_sqrt_trunc s = isqrt s"
proof (cases "s = 0")
  case True
  then show ?thesis
    by (simp add: double_sqrt_trunc_def isqrt_small)
next
  case False
  define k where "k = 52 - (bit_length s - 1) div 2"
  define K :: nat where "K = 2 ^ k"
  define r where "r = isqrt s"
  define N where "N = s * (K * K)"
  define m0 where "m0 = isqrt N"
  define P where "P = (r + 1) * K"
  have "bit_length s \<le> 52"
    using assms by (rule bit_length_le)
  then have k: "26 \<le> k"
    by (simp add: k_def)
  have "(4::nat) ^ k = (2 * 2) ^ k"
    by simp
  also have "\<dots> = 2 ^ k * 2 ^ k"
    by (rule power_mult_distrib)
  finally have four: "(4::nat) ^ k = K * K"
    by (simp add: K_def)
  have r: "r * r \<le> s" "s < (r + 1) * (r + 1)"
    using isqrt_bounds [of s] by (simp_all add: r_def)
  have m0: "m0 * m0 \<le> N" "N < (m0 + 1) * (m0 + 1)"
    using isqrt_bounds [of N] by (simp_all add: m0_def)
  have "r * r < 2 ^ 26 * 2 ^ 26"
    using r(1) assms by simp
  then have "r < 2 ^ 26"
    by (rule nat_less_of_sq_less)
  moreover have "(2::nat) ^ 26 \<le> 2 ^ k"
    using k by (intro power_increasing) simp_all
  ultimately have rK: "r + 1 \<le> K"
    by (simp add: K_def)
  have lo: "r * K \<le> m0"
  proof -
    have "(r * K) * (r * K) = (r * r) * (K * K)"
      by (simp add: algebra_simps)
    also have "\<dots> \<le> N"
      using r(1) by (simp add: N_def)
    also have "\<dots> < (m0 + 1) * (m0 + 1)"
      by (rule m0(2))
    finally have "r * K < m0 + 1"
      by (rule nat_less_of_sq_less)
    then show ?thesis by simp
  qed
  have NP: "N + K * K \<le> P * P"
  proof -
    have "s + 1 \<le> (r + 1) * (r + 1)"
      using r(2) by simp
    then have "(s + 1) * (K * K) \<le> ((r + 1) * (r + 1)) * (K * K)"
      by (rule mult_le_mono1)
    then show ?thesis
      by (simp add: N_def P_def algebra_simps)
  qed
  have Kpos: "0 < K"
    by (simp add: K_def)
  have hi0: "m0 < P"
  proof -
    have "m0 * m0 < P * P"
      using m0(1) NP Kpos by (meson add_lessD1 le_less_trans less_add_same_cancel1 mult_pos_pos not_le order_trans)
    then show ?thesis
      by (rule nat_less_of_sq_less)
  qed
  define m where "m = (if N \<le> m0 * m0 + m0 then m0 else m0 + 1)"
  have hi: "m < P"
  proof (cases "N \<le> m0 * m0 + m0")
    case True
    then show ?thesis using hi0 by (simp add: m_def)
  next
    case up: False
    have "m0 + 1 \<noteq> P"
    proof
      assume eq: "m0 + 1 = P"
      have "m0 * m0 + m0 + P = P * P"
        unfolding eq [symmetric] by (simp add: algebra_simps)
      then have "P * P < N + P"
        using up by simp
      then have "K * K < P"
        using NP by simp
      then have "K * K < (r + 1) * K"
        by (simp add: P_def)
      then have "K < r + 1"
        using mult_less_cancel2 [of K K "r + 1"] by blast
      then show False
        using rK by simp
    qed
    then show ?thesis
      using hi0 up by (simp add: m_def)
  qed
  have lo': "r * K \<le> m"
    using lo by (simp add: m_def)
  have "m div K = r"
  proof -
    have "m < (r + 1) * K"
      using hi by (simp add: P_def)
    then show ?thesis
      using lo' Kpos by (metis div_nat_eqI Suc_eq_plus1 mult.commute)
  qed
  then have res: "m div K = isqrt s"
    by (simp add: r_def)
  have N: "s * 4 ^ k = N"
    by (simp add: N_def four)
  have "double_sqrt_trunc s =
      (let m0 = isqrt (s * 4 ^ k); m = (if s * 4 ^ k \<le> m0 * m0 + m0 then m0 else m0 + 1)
       in m div 2 ^ k)"
    using False by (simp add: double_sqrt_trunc_def Let_def k_def)
  also have "\<dots> = m div K"
    unfolding Let_def N m0_def [symmetric] m_def [symmetric] K_def [symmetric] by (rule refl)
  finally show ?thesis
    using res by simp
qed

lemma isqrt_floor: "int (isqrt n) = \<lfloor>sqrt (real n)\<rfloor>"
proof -
  define r where "r = isqrt n"
  have lo: "r * r \<le> n" and hi: "n < Suc r * Suc r"
    unfolding r_def using isqrt_bounds [of n] by simp_all
  have "real r \<le> sqrt (real n)"
  proof (rule real_le_rsqrt)
    have "real (r * r) \<le> real n"
      using lo by (simp only: of_nat_le_iff)
    then show "(real r)\<^sup>2 \<le> real n"
      by (simp add: power2_eq_square)
  qed
  moreover have "sqrt (real n) < real (Suc r)"
  proof (rule real_less_lsqrt)
    have "real n < real (Suc r * Suc r)"
      using hi by (simp only: of_nat_less_iff)
    then show "real n < (real (Suc r))\<^sup>2"
      by (simp only: power2_eq_square of_nat_mult)
  qed simp
  ultimately have "\<lfloor>sqrt (real n)\<rfloor> = int r"
    by (intro floor_unique) simp_all
  then show ?thesis
    by (simp add: r_def)
qed

lemma euclid_cast_exact:
  assumes "dx\<^sup>2 + dy\<^sup>2 < 2 ^ 52"
  shows "euclid_cast dx dy = int (isqrt (nat (dx\<^sup>2 + dy\<^sup>2)))"
proof -
  have nn: "0 \<le> dx\<^sup>2" "0 \<le> dy\<^sup>2"
    by simp_all
  have le: "(2::int) ^ 52 \<le> 2 ^ 53"
    by simp
  have "dx\<^sup>2 < 2 ^ 53" "dy\<^sup>2 < 2 ^ 53"
    using assms nn le by linarith+
  then have x: "nat (dx\<^sup>2) < 2 ^ 53" and y: "nat (dy\<^sup>2) < 2 ^ 53"
    by (simp_all add: nat_less_iff)
  have s: "nat (dx\<^sup>2) + nat (dy\<^sup>2) = nat (dx\<^sup>2 + dy\<^sup>2)"
    by (simp add: nat_add_distrib)
  have s52: "nat (dx\<^sup>2 + dy\<^sup>2) < 2 ^ 52"
    using assms by (simp add: nat_less_iff)
  then have s53: "nat (dx\<^sup>2 + dy\<^sup>2) < 2 ^ 53"
    by simp
  show ?thesis
    unfolding euclid_cast_def
    by (simp only: round_to_double_exact [OF x] round_to_double_exact [OF y] s
        round_to_double_exact [OF s53] double_sqrt_trunc_exact [OF s52])
qed


lemma bit_length_gt: "2 ^ b \<le> n \<Longrightarrow> b < bit_length n"
proof (induction n arbitrary: b rule: bit_length.induct)
  case (1 n)
  have "(0::nat) < 2 ^ b"
    by simp
  then have n: "n \<noteq> 0"
    using "1.prems" by linarith
  show ?case
  proof (cases b)
    case 0
    then show ?thesis using n by (simp add: bit_length_pos)
  next
    case (Suc b')
    then have "2 ^ b' \<le> n div 2"
      using "1.prems" by auto
    then have "b' < bit_length (n div 2)"
      using "1.IH" [OF n] by simp
    then show ?thesis
      using n Suc by (simp add: bit_length_pos)
  qed
qed

lemma bit_length_eq: "2 ^ b \<le> n \<Longrightarrow> n < 2 ^ Suc b \<Longrightarrow> bit_length n = Suc b"
  using bit_length_gt [of b n] bit_length_le [of n "Suc b"] by simp

lemma isqrt_unique:
  assumes "r * r \<le> n" "n < (r + 1) * (r + 1)"
  shows "isqrt n = r"
proof -
  have "isqrt n * isqrt n < (r + 1) * (r + 1)"
    using isqrt_bounds [of n] assms(2) by simp
  then have "isqrt n < r + 1"
    by (rule nat_less_of_sq_less)
  moreover have "r * r < (isqrt n + 1) * (isqrt n + 1)"
    using isqrt_bounds [of n] assms(1) by simp
  then have "r < isqrt n + 1"
    by (rule nat_less_of_sq_less)
  ultimately show ?thesis
    by simp
qed

lemma euclid_cast_rounds_up:
  "euclid_cast 72000000 12000 = 72000001 \<and> \<lfloor>sqrt (real_of_int (72000000\<^sup>2 + 12000\<^sup>2))\<rfloor> = 72000000"
proof -
  let ?s = "5184000144000000 :: nat"
  have b: "bit_length ?s = Suc 52"
    by (rule bit_length_eq) simp_all
  have sx: "bit_length (5184000000000000 :: nat) \<le> 53"
    by (rule bit_length_le) simp
  have sy: "bit_length (144000000 :: nat) \<le> 53"
    by (rule bit_length_le) simp
  have m0: "isqrt 23346661116806997605351424000000 = 4831838275108863"
    by (rule isqrt_unique) simp_all
  have "double_sqrt_trunc ?s = 72000001"
    by (simp add: double_sqrt_trunc_def b m0 Let_def)
  moreover have "round_to_double ?s = ?s"
    using b by (simp add: round_to_double_def)
  moreover have "round_to_double 5184000000000000 = 5184000000000000"
    "round_to_double 144000000 = 144000000"
    using sx sy by (simp_all add: round_to_double_def)
  ultimately have 1: "euclid_cast 72000000 12000 = 72000001"
    by (simp add: euclid_cast_def)
  have "isqrt ?s = 72000000"
    by (rule isqrt_unique) simp_all
  then have 2: "\<lfloor>sqrt (real_of_int (72000000\<^sup>2 + 12000\<^sup>2))\<rfloor> = 72000000"
    using isqrt_floor [of ?s] by simp
  from 1 2 show ?thesis
    by simp
qed

lemma dist_entry_ok:
  assumes "j < length (fst a)" "j < length (snd a)" "i < length (fst b)" "i < length (snd b)"
  shows "dist_entry a b i j =
     Inr (euclid_cast (fst a ! j - fst b ! i) (snd a ! j - snd b ! i))"
  using assms by (simp add: dist_entry_def vec_at_nat)

lemma createDistMat_ok:
  assumes "length aX = D" "length aY = D" "length bX = D" "length bY = D"
  shows "createDistMat (aX, aY) (bX, bY) =
     Inr (map (\<lambda>i. map (\<lambda>j. euclid_cast (aX ! j - bX ! i) (aY ! j - bY ! i)) [0..<D])
            [0..<D])"
proof -
  have row: "foldE (\<lambda>j row. bindE (dist_entry (aX, aY) (bX, bY) i j) (\<lambda>d. Inr (row @ [d]))) [0..<D] []
      = Inr ([] @ map (\<lambda>j. euclid_cast (aX ! j - bX ! i) (aY ! j - bY ! i)) [0..<D])"
    if "i \<in> set [0..<D]" for i
    using that assms by (intro foldE_push_back) (simp add: dist_entry_ok)
  have "foldE (\<lambda>i m.
            bindE (foldE (\<lambda>j row. bindE (dist_entry (aX, aY) (bX, bY) i j) (\<lambda>d. Inr (row @ [d]))) [0..<D] [])
              (\<lambda>row. Inr (m @ [row])))
          [0..<D] []
     = Inr ([] @ map (\<lambda>i. map (\<lambda>j. euclid_cast (aX ! j - bX ! i) (aY ! j - bY ! i)) [0..<D])
            [0..<D])"
    by (intro foldE_push_back) (simp add: row)
  then show ?thesis
    using assms by (simp add: createDistMat_def)
qed

lemma squared_distance_bound:
  assumes "\<bar>a\<bar> \<le> 2 ^ 24" "\<bar>b\<bar> \<le> 2 ^ 24" "\<bar>c\<bar> \<le> 2 ^ 24" "\<bar>d\<bar> \<le> 2 ^ 24"
  shows "(a - b)\<^sup>2 + (c - d)\<^sup>2 < (2::int) ^ 52"
proof -
  have sq: "x\<^sup>2 \<le> (2 ^ 25)\<^sup>2" if "\<bar>x\<bar> \<le> 2 ^ 25" for x :: int
  proof -
    have "\<bar>x\<bar>\<^sup>2 \<le> (2 ^ 25)\<^sup>2"
      using that by (intro power_mono) simp_all
    then show ?thesis
      by simp
  qed
  have "\<bar>a - b\<bar> \<le> 2 ^ 25" "\<bar>c - d\<bar> \<le> 2 ^ 25"
    using assms by simp_all
  then have "(a - b)\<^sup>2 \<le> (2 ^ 25)\<^sup>2" "(c - d)\<^sup>2 \<le> (2 ^ 25)\<^sup>2"
    by (simp_all only: sq)
  then show ?thesis
    by simp
qed





subsection \<open>Permutations and the collecting loop\<close>

lemma is_permutation_mset: "is_permutation a n \<Longrightarrow> mset a = mset (map int [0..<n])"
  unfolding is_permutation_def by (metis mset_sort)

lemma is_permutation_length: "is_permutation a n \<Longrightarrow> length a = n"
  using is_permutation_mset [of a n] mset_eq_length by fastforce

lemma is_permutation_set: "is_permutation a n \<Longrightarrow> set a = int ` {0..<n}"
  using is_permutation_mset [of a n] mset_eq_setD by fastforce

lemma is_permutation_distinct: "is_permutation a n \<Longrightarrow> distinct a"
proof -
  assume "is_permutation a n"
  then have "mset a = mset (map int [0..<n])"
    by (rule is_permutation_mset)
  moreover have "distinct (map int [0..<n])"
    by (simp add: distinct_map)
  ultimately show "distinct a"
    using mset_eq_imp_distinct_iff by blast
qed

lemma is_permutation_nth:
  assumes "is_permutation a n" "i < n"
  shows "0 \<le> a ! i \<and> a ! i < int n"
proof -
  have "a ! i \<in> set a"
    using assms by (simp add: is_permutation_length)
  then show ?thesis
    using is_permutation_set [OF assms(1)] by auto
qed

lemma length_filter_ge_upt: "length (filter (\<lambda>i. m \<le> i) [0..<n]) = n - m"
  by (induction n) (auto simp: Suc_diff_le)

lemma is_permutation_count_tail:
  assumes "is_permutation a n" "k \<le> n"
  shows "length (filter (\<lambda>v. int n - int k \<le> v) a) = k"
proof -
  have "length (filter (\<lambda>v. int n - int k \<le> v) a)
      = size (filter_mset (\<lambda>v. int n - int k \<le> v) (mset a))"
    by (metis mset_filter size_mset)
  also have "\<dots> = size (filter_mset (\<lambda>v. int n - int k \<le> v) (mset (map int [0..<n])))"
    using assms(1) by (simp add: is_permutation_mset)
  also have "\<dots> = length (filter (\<lambda>v. int n - int k \<le> v) (map int [0..<n]))"
    by (metis mset_filter size_mset)
  also have "\<dots> = length (filter (\<lambda>i. n - k \<le> i) [0..<n])"
  proof -
    have "(\<lambda>i. int n - int k \<le> int i) = (\<lambda>i. n - k \<le> i)"
      using assms(2) by (intro ext) linarith
    then show ?thesis
      by (simp add: filter_map o_def)
  qed
  also have "\<dots> = k"
    using assms(2) by (simp add: length_filter_ge_upt)
  finally show ?thesis .
qed

lemma collect_loop:
  assumes "\<forall>x\<in>set xs. x < length a \<and>
     (bound \<le> a ! x \<longrightarrow> 0 \<le> a ! x \<and> a ! x < int (length nX) \<and> a ! x < int (length nY))"
  shows "foldE (collect_step a (nX, nY) bound) xs (cX, cY) =
     Inr (cX @ map (\<lambda>x. nX ! nat (a ! x)) (filter (\<lambda>x. bound \<le> a ! x) xs),
          cY @ map (\<lambda>x. nY ! nat (a ! x)) (filter (\<lambda>x. bound \<le> a ! x) xs))"
  using assms
proof (induction xs arbitrary: cX cY)
  case Nil
  then show ?case by simp
next
  case (Cons x xs)
  have step: "collect_step a (nX, nY) bound x (cX, cY) =
      Inr (if bound \<le> a ! x then (cX @ [nX ! nat (a ! x)], cY @ [nY ! nat (a ! x)]) else (cX, cY))"
    using Cons.prems by (simp add: collect_step_def vec_at_def)
  have rest: "\<forall>x\<in>set xs. x < length a \<and>
     (bound \<le> a ! x \<longrightarrow> 0 \<le> a ! x \<and> a ! x < int (length nX) \<and> a ! x < int (length nY))"
    using Cons.prems by simp
  show ?case
    by (simp add: step Cons.IH [OF rest])
qed

lemma length_filter_nth_upt:
  "length (filter (\<lambda>x. P (a ! x)) [0..<length a]) = length (filter P a)"
proof -
  have "filter P (map (\<lambda>x. a ! x) [0..<length a]) = filter P a"
    by (simp add: map_nth)
  then have "length (filter P (map (\<lambda>x. a ! x) [0..<length a])) = length (filter P a)"
    by simp
  then show ?thesis
    by (simp add: filter_map o_def)
qed

subsection \<open>Rearranging the new data and the tick on an unchanged number of points\<close>

lemma shape_frames:
  assumes "map length m = replicate 3 n"
  shows "length m = 3 \<and> length (m ! 0) = n \<and> length (m ! 1) = n \<and> length (m ! 2) = n"
proof -
  have l: "length m = 3"
    using assms by (metis length_map length_replicate)
  have "length (m ! i) = n" if "i < 3" for i
  proof -
    have "map length m ! i = replicate 3 n ! i"
      using assms by simp
    then show ?thesis
      using that l by simp
  qed
  then show ?thesis
    using l by simp
qed

lemma fold_update_length: "length (fold (\<lambda>i ar. ar[f i := g i]) xs ar) = length ar"
  by (induction xs arbitrary: ar) simp_all

lemma fold_update_untouched:
  "k \<notin> f ` set xs \<Longrightarrow> fold (\<lambda>i ar. ar[f i := g i]) xs ar ! k = ar ! k"
  by (induction xs arbitrary: ar) auto

lemma fold_update_hit:
  "distinct (map f xs) \<Longrightarrow> i \<in> set xs \<Longrightarrow> f i < length ar \<Longrightarrow>
   fold (\<lambda>i ar. ar[f i := g i]) xs ar ! f i = g i"
proof (induction xs arbitrary: ar)
  case Nil
  then show ?case by simp
next
  case (Cons x xs)
  show ?case
  proof (cases "i = x")
    case True
    then have "f i \<notin> f ` set xs"
      using Cons.prems(1) by simp
    then have "fold (\<lambda>i ar. ar[f i := g i]) xs (ar[f x := g x]) ! f i = ar[f x := g x] ! f i"
      by (rule fold_update_untouched)
    with True Cons.prems(3) show ?thesis
      by simp
  next
    case False
    have "distinct (map f xs)"
      using Cons.prems(1) by simp
    moreover have "i \<in> set xs"
      using False Cons.prems(2) by simp
    moreover have "f i < length (ar[f x := g x])"
      using Cons.prems(3) by simp
    ultimately have "fold (\<lambda>i ar. ar[f i := g i]) xs (ar[f x := g x]) ! f i = g i"
      by (rule Cons.IH)
    then show ?thesis
      by simp
  qed
qed

lemma length_arranged: "length (arranged a new n) = n"
  by (simp add: arranged_def fold_update_length)

lemma is_permutation_distinct_nat:
  assumes "is_permutation a n"
  shows "distinct (map (\<lambda>i. nat (a ! i)) [0..<n])"
proof -
  have "map (\<lambda>i. nat (a ! i)) [0..<length a] = map nat a"
    by (rule nth_equalityI) simp_all
  then have "map (\<lambda>i. nat (a ! i)) [0..<n] = map nat a"
    using is_permutation_length [OF assms] by simp
  moreover have "inj_on nat (set a)"
    using is_permutation_set [OF assms] by (auto simp: inj_on_def)
  ultimately show ?thesis
    using is_permutation_distinct [OF assms] by (simp add: distinct_map)
qed

lemma arranged_nth:
  assumes "is_permutation a n" "i < n"
  shows "arranged a new n ! nat (a ! i) = new ! i"
proof -
  have "nat (a ! i) < length (replicate n (0::int))"
    using is_permutation_nth [OF assms] by auto
  moreover have "i \<in> set [0..<n]"
    using assms(2) by simp
  ultimately show ?thesis
    unfolding arranged_def
    using fold_update_hit [OF is_permutation_distinct_nat [OF assms(1)],
        of i "replicate n 0" "\<lambda>i. new ! i"]
    by simp
qed

lemma arrange_loop:
  assumes "length arX = n" "length arY = n"
    and "\<forall>x\<in>set xs. x < length a \<and> x < length nX \<and> x < length nY \<and> 0 \<le> a ! x \<and> a ! x < int n"
  shows "foldE (arrange_step a (nX, nY)) xs (arX, arY) =
     Inr (fold (\<lambda>i ar. ar[nat (a ! i) := nX ! i]) xs arX,
          fold (\<lambda>i ar. ar[nat (a ! i) := nY ! i]) xs arY)"
  using assms
proof (induction xs arbitrary: arX arY)
  case Nil
  then show ?case by simp
next
  case (Cons x xs)
  have step: "arrange_step a (nX, nY) x (arX, arY) =
      Inr (arX[nat (a ! x) := nX ! x], arY[nat (a ! x) := nY ! x])"
    using Cons.prems by (simp add: arrange_step_def vec_at_nat vec_set_def)
  have "foldE (arrange_step a (nX, nY)) xs (arX[nat (a ! x) := nX ! x], arY[nat (a ! x) := nY ! x]) =
     Inr (fold (\<lambda>i ar. ar[nat (a ! i) := nX ! i]) xs (arX[nat (a ! x) := nX ! x]),
          fold (\<lambda>i ar. ar[nat (a ! i) := nY ! i]) xs (arY[nat (a ! x) := nY ! x]))"
    using Cons.prems by (intro Cons.IH) simp_all
  then show ?case
    by (simp add: step)
qed

lemma push_and_rearrange_data_ok:
  assumes "is_permutation a n" "length nX = n" "length nY = n"
  shows "push_and_rearrange_data n (dX, dY) a (nX, nY) =
     Inr (tl (dX @ [arranged a nX n]), tl (dY @ [arranged a nY n]))"
proof -
  have cond: "\<forall>x\<in>set [0..<n]. x < length a \<and> x < length nX \<and> x < length nY \<and> 0 \<le> a ! x \<and> a ! x < int n"
    using assms is_permutation_nth [OF assms(1)] is_permutation_length [OF assms(1)] by simp
  have "foldE (arrange_step a (nX, nY)) [0..<n] (replicate n 0, replicate n 0) =
     Inr (fold (\<lambda>i ar. ar[nat (a ! i) := nX ! i]) [0..<n] (replicate n 0),
          fold (\<lambda>i ar. ar[nat (a ! i) := nY ! i]) [0..<n] (replicate n 0))"
    by (rule arrange_loop [OF _ _ cond]) simp_all
  then show ?thesis
    by (simp add: push_and_rearrange_data_def arranged_def)
qed

lemma predict_shape:
  assumes "map length m = replicate 3 n" "length good = n"
  shows "\<exists>pred. predict n m good = Inr pred \<and> length pred = n"
  using predict_ok [of m n good] shape_frames [OF assms(1)] assms(2) by simp

lemma solver_ok_permutation:
  "solver_ok solve \<Longrightarrow> length M = n \<Longrightarrow> is_permutation (solve M) n"
  by (auto simp: solver_ok_def)

lemma diff_zero_ok:
  assumes "solver_ok solve" "tracker_shape t n" "length xs = n" "length ys = n"
  shows "\<exists>a. is_permutation a n \<and>
     push_data_intern_diff_zero solve n t (xs, ys) =
       Inr (t\<lparr>m_matData_X := tl (m_matData_X t @ [arranged a xs n]),
              m_matData_Y := tl (m_matData_Y t @ [arranged a ys n]),
              m_vecCurrentAssignment := a,
              m_vecGoodDataCount := map (\<lambda>g. g + 1) (m_vecGoodDataCount t)\<rparr>)"
proof -
  obtain predX where pX: "predict n (m_matData_X t) (m_vecGoodDataCount t) = Inr predX"
    "length predX = n"
    using predict_shape [of "m_matData_X t" n "m_vecGoodDataCount t"] assms(2)
    by (auto simp: tracker_shape_def)
  obtain predY where pY: "predict n (m_matData_Y t) (m_vecGoodDataCount t) = Inr predY"
    "length predY = n"
    using predict_shape [of "m_matData_Y t" n "m_vecGoodDataCount t"] assms(2)
    by (auto simp: tracker_shape_def)
  obtain M where M: "createDistMat (predX, predY) (xs, ys) = Inr M" "length M = n"
    using createDistMat_ok [of predX n predY xs ys] pX(2) pY(2) assms(3,4) by simp
  have perm: "is_permutation (solve M) n"
    using assms(1) M(2) by (rule solver_ok_permutation)
  have "push_and_rearrange_data n (m_matData_X t, m_matData_Y t) (solve M) (xs, ys) =
     Inr (tl (m_matData_X t @ [arranged (solve M) xs n]), tl (m_matData_Y t @ [arranged (solve M) ys n]))"
    using perm assms(3,4) by (rule push_and_rearrange_data_ok)
  then have "push_data_intern_diff_zero solve n t (xs, ys) =
       Inr (t\<lparr>m_matData_X := tl (m_matData_X t @ [arranged (solve M) xs n]),
              m_matData_Y := tl (m_matData_Y t @ [arranged (solve M) ys n]),
              m_vecCurrentAssignment := solve M,
              m_vecGoodDataCount := map (\<lambda>g. g + 1) (m_vecGoodDataCount t)\<rparr>)"
    by (simp add: push_data_intern_diff_zero_def pX(1) pY(1) M(1) Let_def)
  with perm show ?thesis
    by blast
qed

subsection \<open>Concrete ticks\<close>

text \<open>A solver that meets the contract (it reverses the row indices), and the equations
  that evaluate a tick on concrete data.\<close>

lemma sorted_map_int_upt: "sorted (map int [0..<n])"
  by (simp add: sorted_iff_nth_mono)

lemma solver_ok_rev: "solver_ok (\<lambda>M. rev (map int [0..<length M]))"
proof -
  have "sort (rev (map int [0..<n])) = map int [0..<n]" for n
    by (rule properties_for_sort) (simp_all add: sorted_map_int_upt)
  then show ?thesis
    by (simp add: solver_ok_def is_permutation_def)
qed

lemma replicate_numeral_Cons: "replicate (numeral k) x = x # replicate (pred_numeral k) x"
  by (simp add: numeral_eq_Suc)

lemmas tick_eval = replicate_numeral_Cons
  pushData_def push_data_intern_diff_zero_def push_data_intern_diff_gtz_def
  push_data_intern_diff_ltz_def push_data_intern_first_step_def
  predict_def predict_slot_def mat_at_def mat_set_def vec_at_def vec_set_def
  createDistMat_def dist_entry_def euclid_cast_exact isqrt_small isqrt_step
  push_and_rearrange_data_def arrange_step_def finish_def Let_def
  removeRowsFromDataMatrix_def removeElemsFromVector_def
  pad_step_def push_back_frame_def collect_step_def backfill_step_def
  collect_new_columns_def backfill_new_slots_def
  get_n_new_ids_def resize_vec_def BLIND_VALUE_def
  Extrapolator_predict2_def Extrapolator_predict3_def upt_rec

text \<open>
  C7. A tick with as many new points as tracked slots stores observation \<open>i\<close> in slot
  \<open>assignment[i]\<close> of the new frame (the new data reordered by the inverse of the solved
  assignment), appends that frame as the newest of the history and drops the oldest one,
  so that the depth stays three, increments every freshness counter by exactly 1 and
  leaves the identities as they are. The solver is assumed to meet its contract.
\<close>

theorem equal_size_tick:
  assumes "solver_ok solve" "tracker_shape t n" "0 < n" "length xs = n" "length ys = n"
  shows "\<exists>t' a. pushData solve t xs ys = Updated t' \<and>
     m_vecCurrentAssignment t' = a \<and> is_permutation a n \<and>
     m_matData_X t' = tl (m_matData_X t) @ [arranged a xs n] \<and>
     m_matData_Y t' = tl (m_matData_Y t) @ [arranged a ys n] \<and>
     length (arranged a xs n) = n \<and> length (arranged a ys n) = n \<and>
     (\<forall>i<n. arranged a xs n ! nat (a ! i) = xs ! i \<and> arranged a ys n ! nat (a ! i) = ys ! i) \<and>
     m_vecGoodDataCount t' = map (\<lambda>g. g + 1) (m_vecGoodDataCount t) \<and>
     m_vecIDs t' = m_vecIDs t"
proof -
  have fr: "length (m_matData_X t) = 3" "length (m_matData_X t ! 0) = n"
    "length (m_matData_Y t) = 3"
    using assms(2) shape_frames [of "m_matData_X t" n] shape_frames [of "m_matData_Y t" n]
    by (simp_all add: tracker_shape_def)
  obtain a where a: "is_permutation a n"
    "push_data_intern_diff_zero solve n t (xs, ys) =
       Inr (t\<lparr>m_matData_X := tl (m_matData_X t @ [arranged a xs n]),
              m_matData_Y := tl (m_matData_Y t @ [arranged a ys n]),
              m_vecCurrentAssignment := a,
              m_vecGoodDataCount := map (\<lambda>g. g + 1) (m_vecGoodDataCount t)\<rparr>)"
    using diff_zero_ok [OF assms(1,2,4,5)] by blast
  have ne: "m_matData_X t \<noteq> []" "m_matData_Y t \<noteq> []"
    using fr by auto
  have "pushData solve t xs ys =
      Updated (t\<lparr>m_matData_X := tl (m_matData_X t) @ [arranged a xs n],
              m_matData_Y := tl (m_matData_Y t) @ [arranged a ys n],
              m_vecCurrentAssignment := a,
              m_vecGoodDataCount := map (\<lambda>g. g + 1) (m_vecGoodDataCount t)\<rparr>)"
    using assms(3,4,5) fr ne by (simp add: pushData_def Let_def a(2) finish_def)
  then show ?thesis
    using a(1) arranged_nth [OF a(1)] by (simp add: length_arranged)
qed

theorem equal_size_tick_witness:
  "\<exists>t' a. pushData (\<lambda>M. rev (map int [0..<length M]))
      \<lparr>m_matData_X = [[0, 10], [0, 10], [0, 10]], m_matData_Y = [[0, 10], [0, 10], [0, 10]],
        m_vecIDs = [0, 1], m_vecCurrentAssignment = [], m_vecGoodDataCount = [1, 1]\<rparr>
      [11, 1] [11, 1] = Updated t' \<and>
     m_vecCurrentAssignment t' = a \<and> is_permutation a 2 \<and> a = [1, 0] \<and>
     m_matData_X t' = [[0, 10], [0, 10], [1, 11]] \<and>
     m_matData_Y t' = [[0, 10], [0, 10], [1, 11]] \<and>
     m_vecGoodDataCount t' = [2, 2] \<and> m_vecIDs t' = [0, 1]"
proof -
  let ?solve = "\<lambda>M :: int list list. rev (map int [0..<length M])"
  let ?t = "\<lparr>m_matData_X = [[0, 10], [0, 10], [0, 10]], m_matData_Y = [[0, 10], [0, 10], [0, 10]],
        m_vecIDs = [0, 1], m_vecCurrentAssignment = [], m_vecGoodDataCount = [1, 1]\<rparr>"
  have sh: "tracker_shape ?t 2"
    by (simp add: tracker_shape_def replicate_numeral_Cons)
  have ev: "pushData ?solve ?t [11, 1] [11, 1]
    = Updated \<lparr>m_matData_X = [[0, 10], [0, 10], [1, 11]], m_matData_Y = [[0, 10], [0, 10], [1, 11]],
        m_vecIDs = [0, 1], m_vecCurrentAssignment = [1, 0], m_vecGoodDataCount = [2, 2]\<rparr>"
    by (simp add: tick_eval)
  obtain t' a where h: "pushData ?solve ?t [11, 1] [11, 1] = Updated t'"
    "m_vecCurrentAssignment t' = a" "is_permutation a 2"
    using equal_size_tick [OF solver_ok_rev sh, of "[11, 1]" "[11, 1]"] by auto
  from h(1) ev have "t' = \<lparr>m_matData_X = [[0, 10], [0, 10], [1, 11]],
        m_matData_Y = [[0, 10], [0, 10], [1, 11]],
        m_vecIDs = [0, 1], m_vecCurrentAssignment = [1, 0], m_vecGoodDataCount = [2, 2]\<rparr>"
    by simp
  with h show ?thesis
    by simp
qed

subsection \<open>Row removal and the tick on fewer points\<close>

lemma map_nth_upt_drop: "map (\<lambda>i. v ! i) [k..<length v] = drop k v"
  by (rule nth_equalityI) simp_all

lemma removeElems_loop_sorted:
  assumes "sorted_wrt (<) (drop r rws)" "\<forall>q\<in>set (drop r rws). int vidx \<le> q"
  shows "removeElems_loop v rws r vidx newV =
     newV @ map (\<lambda>i. v ! i) (filter (\<lambda>i. int i \<notin> set (drop r rws)) [vidx..<length v])"
  using assms
proof (induction v rws r vidx newV rule: removeElems_loop.induct)
  case (1 v rws r vidx newV)
  show ?case
  proof (cases "vidx < length v \<and> r < length rws")
    case True
    then have d: "drop r rws = rws ! r # drop (Suc r) rws"
      by (simp add: Cons_nth_drop_Suc)
    have u: "[vidx..<length v] = vidx # [Suc vidx..<length v]"
      using True by (simp add: upt_conv_Cons)
    have gt: "\<forall>q\<in>set (drop (Suc r) rws). rws ! r < q"
      using "1.prems"(1) d by simp
    have ge: "int vidx \<le> rws ! r"
      using "1.prems"(2) d by simp
    show ?thesis
    proof (cases "rws ! r \<noteq> int vidx")
      case neq: True
      have notin: "int vidx \<notin> set (drop r rws)"
        using neq ge gt d by auto
      have "\<forall>q\<in>set (drop r rws). int (vidx + 1) \<le> q"
        using neq ge gt d by auto
      then have "removeElems_loop v rws r (vidx + 1) (newV @ [v ! vidx]) =
          (newV @ [v ! vidx]) @ map (\<lambda>i. v ! i)
             (filter (\<lambda>i. int i \<notin> set (drop r rws)) [vidx + 1..<length v])"
        using "1.IH"(1) [OF True neq "1.prems"(1)] by simp
      moreover have "removeElems_loop v rws r vidx newV
          = removeElems_loop v rws r (vidx + 1) (newV @ [v ! vidx])"
        using True neq by (subst removeElems_loop.simps) simp
      ultimately show ?thesis
        using notin by (simp add: u)
    next
      case eq: False
      have s: "sorted_wrt (<) (drop (r + 1) rws)"
        using "1.prems"(1) d by simp
      have "\<forall>q\<in>set (drop (r + 1) rws). int (vidx + 1) \<le> q"
        using eq gt by auto
      then have "removeElems_loop v rws (r + 1) (vidx + 1) newV =
          newV @ map (\<lambda>i. v ! i)
             (filter (\<lambda>i. int i \<notin> set (drop (r + 1) rws)) [vidx + 1..<length v])"
        using "1.IH"(2) [OF True _ s] eq by simp
      moreover have "removeElems_loop v rws r vidx newV
          = removeElems_loop v rws (r + 1) (vidx + 1) newV"
        using True eq by (subst removeElems_loop.simps) simp
      moreover have "filter (\<lambda>i. int i \<notin> set (drop r rws)) [Suc vidx..<length v]
          = filter (\<lambda>i. int i \<notin> set (drop (Suc r) rws)) [Suc vidx..<length v]"
        using eq d by (intro filter_cong) auto
      moreover have "int vidx \<in> set (drop r rws)"
        using eq d by simp
      ultimately show ?thesis
        by (simp add: u)
    qed
  next
    case False
    then have e: "removeElems_loop v rws r vidx newV = newV @ drop vidx v"
      by (subst removeElems_loop.simps) auto
    show ?thesis
    proof (cases "vidx < length v")
      case True
      then have "drop r rws = []"
        using False by simp
      then show ?thesis
        by (simp add: e map_nth_upt_drop)
    next
      case False
      then show ?thesis
        by (simp add: e)
    qed
  qed
qed

lemma removeElemsFromVector_sorted:
  assumes "distinct del" "\<forall>q\<in>set del. 0 \<le> q"
  shows "removeElemsFromVector v (sort del) =
     map (\<lambda>i. v ! i) (filter (\<lambda>i. int i \<notin> set del) [0..<length v])"
proof -
  have "sorted_wrt (<) (drop 0 (sort del))"
    using assms(1) by (simp add: strict_sorted_iff)
  moreover have "\<forall>q\<in>set (drop 0 (sort del)). int 0 \<le> q"
    using assms(2) by simp
  ultimately have "removeElems_loop v (sort del) 0 0 [] =
     [] @ map (\<lambda>i. v ! i) (filter (\<lambda>i. int i \<notin> set (drop 0 (sort del))) [0..<length v])"
    by (rule removeElems_loop_sorted)
  then show ?thesis
    by (simp add: removeElemsFromVector_def)
qed

lemma map_filter_nths:
  "map (\<lambda>i. v ! i) (filter (\<lambda>i. i \<in> A) [0..<length v]) = nths v A"
proof -
  have "zip v [0..<length v] = map (\<lambda>i. (v ! i, i)) [0..<length v]"
    by (rule nth_equalityI) simp_all
  then show ?thesis
    by (simp add: nths_def filter_map o_def)
qed

lemma removeElemsFromVector_nths:
  assumes "distinct del" "\<forall>q\<in>set del. 0 \<le> q"
  shows "removeElemsFromVector v (sort del) = nths v {i. int i \<notin> set del}"
  using removeElemsFromVector_sorted [OF assms, of v]
    map_filter_nths [of v "{i. int i \<notin> set del}"] by simp

lemma length_removeElemsFromVector:
  assumes "distinct del" "\<forall>q\<in>set del. 0 \<le> q \<and> q < int (length v)"
  shows "length (removeElemsFromVector v (sort del)) = length v - length del"
proof -
  have nn: "\<forall>q\<in>set del. 0 \<le> q"
    using assms(2) by simp
  have "{i. i < length v \<and> int i \<notin> set del} = {..<length v} - nat ` set del"
    using assms(2) by (auto simp: image_iff) (metis nat_int)
  moreover have "nat ` set del \<subseteq> {..<length v}"
    using assms(2) by auto
  moreover have "card (nat ` set del) = length del"
  proof -
    have "inj_on nat (set del)"
      using nn by (intro inj_onI) (metis nat_0_le)
    then show ?thesis
      using assms(1) by (simp add: card_image distinct_card)
  qed
  ultimately have "card {i. i < length v \<and> int i \<notin> set del} = length v - length del"
    by (simp add: card_Diff_subset)
  then show ?thesis
    using removeElemsFromVector_nths [OF assms(1) nn, of v]
    by (simp add: length_nths)
qed

lemma removeRowsFromDataMatrix_ok:
  assumes "length md = 3"
  shows "removeRowsFromDataMatrix md rws = Inr (map (\<lambda>v. removeElemsFromVector v rws) md)"
proof -
  obtain f0 f1 f2 where md: "md = [f0, f1, f2]"
    using assms by (auto simp: length_Suc_conv numeral_3_eq_3)
  show ?thesis
    unfolding md by (simp add: removeRowsFromDataMatrix_def vec_at_def vec_set_def upt_rec)
qed

lemma tail_entries_rev_drop:
  assumes "length a = n" "m \<le> n"
  shows "map (\<lambda>i. a ! (n - 1 - i)) [0..<n - m] = rev (drop m a)"
proof (rule nth_equalityI)
  show "length (map (\<lambda>i. a ! (n - 1 - i)) [0..<n - m]) = length (rev (drop m a))"
    using assms by simp
next
  fix i assume "i < length (map (\<lambda>i. a ! (n - 1 - i)) [0..<n - m])"
  then have i: "i < n - m" by simp
  then have "rev (drop m a) ! i = drop m a ! (n - m - Suc i)"
    using assms by (simp add: rev_nth)
  also have "\<dots> = a ! (m + (n - m - Suc i))"
    using assms i by simp
  also have "m + (n - m - Suc i) = n - 1 - i"
    using assms i by simp
  finally show "map (\<lambda>i. a ! (n - 1 - i)) [0..<n - m] ! i = rev (drop m a) ! i"
    using i by simp
qed

lemma delRows_loop:
  assumes "length a = n" "k \<le> n"
  shows "foldE (\<lambda>i del. bindE (vec_at a (int n - 1 - int i)) (\<lambda>v. Inr (del @ [v]))) [0..<k] []
     = Inr (map (\<lambda>i. a ! (n - 1 - i)) [0..<k])"
proof -
  have "vec_at a (int n - 1 - int i) = Inr (a ! (n - 1 - i))" if "i \<in> set [0..<k]" for i
  proof -
    have "i < n" using that assms(2) by simp
    then have "int n - 1 - int i = int (n - 1 - i)" by simp
    moreover have "n - 1 - i < length a" using \<open>i < n\<close> assms(1) by simp
    ultimately show ?thesis by (simp only: vec_at_nat)
  qed
  then have "foldE (\<lambda>i del. bindE (vec_at a (int n - 1 - int i)) (\<lambda>v. Inr (del @ [v]))) [0..<k] []
     = Inr ([] @ map (\<lambda>i. a ! (n - 1 - i)) [0..<k])"
    by (rule foldE_push_back)
  then show ?thesis by simp
qed

lemma diff_gtz_ok:
  assumes "solver_ok solve" "tracker_shape t n" "length xs = m" "length ys = m" "m < n"
  shows "\<exists>a. is_permutation a n \<and>
     push_data_intern_diff_gtz solve (int n - int m) t (xs, ys) =
       Inr (t\<lparr>m_matData_X := map (\<lambda>v. removeElemsFromVector v (sort (rev (drop m a))))
                 (tl (m_matData_X t @ [arranged a (xs @ replicate (n - m) BLIND_VALUE) n])),
              m_matData_Y := map (\<lambda>v. removeElemsFromVector v (sort (rev (drop m a))))
                 (tl (m_matData_Y t @ [arranged a (ys @ replicate (n - m) BLIND_VALUE) n])),
              m_vecIDs := removeElemsFromVector (m_vecIDs t) (sort (rev (drop m a))),
              m_vecCurrentAssignment := a,
              m_vecGoodDataCount := map (\<lambda>g. g + 1)
                 (removeElemsFromVector (m_vecGoodDataCount t) (sort (rev (drop m a))))\<rparr>)"
proof -
  let ?nX = "xs @ replicate (n - m) BLIND_VALUE"
  let ?nY = "ys @ replicate (n - m) BLIND_VALUE"
  have k: "nat (int n - int m) = n - m"
    using assms(5) by simp
  have len: "length ?nX = n" "length ?nY = n"
    using assms(3,4,5) by simp_all
  have fr: "length (m_matData_X t) = 3" "length (m_matData_X t ! 0) = n"
    "length (m_matData_Y t) = 3"
    using assms(2) shape_frames [of "m_matData_X t" n] shape_frames [of "m_matData_Y t" n]
    by (simp_all add: tracker_shape_def)
  have f0: "vec_at (m_matData_X t) 0 = Inr (m_matData_X t ! 0)"
    using fr(1) by (simp add: vec_at_def)
  obtain predX where pX: "predict n (m_matData_X t) (m_vecGoodDataCount t) = Inr predX"
    "length predX = n"
    using predict_shape [of "m_matData_X t" n "m_vecGoodDataCount t"] assms(2)
    by (auto simp: tracker_shape_def)
  obtain predY where pY: "predict n (m_matData_Y t) (m_vecGoodDataCount t) = Inr predY"
    "length predY = n"
    using predict_shape [of "m_matData_Y t" n "m_vecGoodDataCount t"] assms(2)
    by (auto simp: tracker_shape_def)
  obtain M where M: "createDistMat (predX, predY) (?nX, ?nY) = Inr M" "length M = n"
    using createDistMat_ok [of predX n predY ?nX ?nY] pX(2) pY(2) len by simp
  let ?a = "solve M"
  have perm: "is_permutation ?a n"
    using assms(1) M(2) by (rule solver_ok_permutation)
  have la: "length ?a = n"
    using perm by (rule is_permutation_length)
  have pr: "push_and_rearrange_data n (m_matData_X t, m_matData_Y t) ?a (?nX, ?nY) =
     Inr (tl (m_matData_X t @ [arranged ?a ?nX n]), tl (m_matData_Y t @ [arranged ?a ?nY n]))"
    using perm len by (rule push_and_rearrange_data_ok)
  have del: "foldE (\<lambda>i del. bindE (vec_at ?a (int n - 1 - int i)) (\<lambda>v. Inr (del @ [v]))) [0..<n - m] []
     = Inr (rev (drop m ?a))"
    using delRows_loop [OF la, of "n - m"] tail_entries_rev_drop [OF la, of m] assms(5) by simp
  have rX: "removeRowsFromDataMatrix (tl (m_matData_X t @ [arranged ?a ?nX n])) rws
      = Inr (map (\<lambda>v. removeElemsFromVector v rws) (tl (m_matData_X t @ [arranged ?a ?nX n])))" for rws
    using fr(1) by (intro removeRowsFromDataMatrix_ok) simp
  have rY: "removeRowsFromDataMatrix (tl (m_matData_Y t @ [arranged ?a ?nY n])) rws
      = Inr (map (\<lambda>v. removeElemsFromVector v rws) (tl (m_matData_Y t @ [arranged ?a ?nY n])))" for rws
    using fr(3) by (intro removeRowsFromDataMatrix_ok) simp
  have "push_data_intern_diff_gtz solve (int n - int m) t (xs, ys) =
       Inr (t\<lparr>m_matData_X := map (\<lambda>v. removeElemsFromVector v (sort (rev (drop m ?a))))
                 (tl (m_matData_X t @ [arranged ?a ?nX n])),
              m_matData_Y := map (\<lambda>v. removeElemsFromVector v (sort (rev (drop m ?a))))
                 (tl (m_matData_Y t @ [arranged ?a ?nY n])),
              m_vecIDs := removeElemsFromVector (m_vecIDs t) (sort (rev (drop m ?a))),
              m_vecCurrentAssignment := ?a,
              m_vecGoodDataCount := map (\<lambda>g. g + 1)
                 (removeElemsFromVector (m_vecGoodDataCount t) (sort (rev (drop m ?a))))\<rparr>)"
    unfolding push_data_intern_diff_gtz_def
    by (simp add: Let_def k f0 fr(2) pX(1) pY(1) M(1) pr del rX rY)
  with perm show ?thesis
    by blast
qed

lemma removeElems_loop_keep:
  "vidx < length v \<Longrightarrow> r < length rws \<Longrightarrow> rws ! r \<noteq> int vidx \<Longrightarrow>
   removeElems_loop v rws r vidx newV = removeElems_loop v rws r (vidx + 1) (newV @ [v ! vidx])"
  by (subst removeElems_loop.simps) simp

lemma removeElems_loop_skip:
  "vidx < length v \<Longrightarrow> r < length rws \<Longrightarrow> rws ! r = int vidx \<Longrightarrow>
   removeElems_loop v rws r vidx newV = removeElems_loop v rws (r + 1) (vidx + 1) newV"
  by (subst removeElems_loop.simps) simp

lemma removeElems_loop_done:
  "\<not> (vidx < length v \<and> r < length rws) \<Longrightarrow>
   removeElems_loop v rws r vidx newV = newV @ drop vidx v"
  by (subst removeElems_loop.simps) auto

lemmas shrink_eval = removeElems_loop_keep removeElems_loop_skip removeElems_loop_done

lemma shape_after_push:
  assumes "map length d = replicate 3 n" "length fx = n"
  shows "map length (tl (d @ [fx])) = replicate 3 n"
proof -
  have "map length (tl (d @ [fx])) = tl (map length d @ [n])"
    using assms(2) by (simp add: map_tl)
  then show ?thesis
    using assms(1) by (simp add: numeral_3_eq_3)
qed

lemma frames_mapped_shape:
  assumes "map length fs = replicate 3 n" "\<And>v. length v = n \<Longrightarrow> length (g v) = m"
  shows "map length (map g fs) = replicate 3 m"
proof -
  have l: "length fs = 3"
    using assms(1) by (metis length_map length_replicate)
  have "set (map length fs) \<subseteq> {n}"
    using assms(1) by simp
  then have "\<forall>v\<in>set fs. length v = n"
    by auto
  then have "\<forall>v\<in>set fs. length (g v) = m"
    using assms(2) by simp
  then have "map (\<lambda>v. length (g v)) fs = map (\<lambda>v. m) fs"
    by simp
  then show ?thesis
    using l by (simp add: map_replicate_const o_def)
qed

lemma pushData_gtz:
  assumes "0 < length xs" "length xs = length ys" "m_matData_X t \<noteq> []"
    "length (m_matData_X t ! 0) = n" "length xs < n"
  shows "pushData solve t xs ys =
     finish (push_data_intern_diff_gtz solve (int n - int (length xs)) t (xs, ys))"
  using assms by (simp add: pushData_def Let_def)

lemma pushData_ltz:
  assumes "0 < length xs" "length xs = length ys" "m_matData_X t \<noteq> []"
    "length (m_matData_X t ! 0) = n" "n < length xs"
  shows "pushData solve t xs ys =
     finish (bindE (push_data_intern_diff_ltz solve (int n - int (length xs)) t (xs, ys))
               (\<lambda>r. Inr (snd r)))"
  using assms by (simp add: pushData_def Let_def)

text \<open>
  C6. A tick with fewer new points than tracked slots, \<open>k\<close> fewer, deletes exactly \<open>k\<close>
  slots: those named by the last \<open>k\<close> entries of the solved assignment, which are the slots
  matched to the \<open>k\<close> sentinel observations that pad the batch. Their indices, sorted
  ascending, are removed from every frame of both history deques, from the identities and
  from the freshness counters alike, so the surviving slots keep their identities in
  order, \<open>k\<close> identities are retired, and the tracker has the size of the batch. The
  solver is assumed to meet its contract.
\<close>

theorem shrink_tick:
  assumes "solver_ok solve" "tracker_shape t n" "0 < length xs" "length xs = length ys"
    "length xs < n"
  shows "\<exists>t' a. pushData solve t xs ys = Updated t' \<and>
     m_vecCurrentAssignment t' = a \<and> is_permutation a n \<and>
     distinct (drop (length xs) a) \<and> length (drop (length xs) a) = n - length xs \<and>
     (\<forall>i. length xs \<le> i \<and> i < n \<longrightarrow>
        arranged a (xs @ replicate (n - length xs) BLIND_VALUE) n ! nat (a ! i) = BLIND_VALUE) \<and>
     m_matData_X t' = map (\<lambda>f. nths f {i. int i \<notin> set (drop (length xs) a)})
        (tl (m_matData_X t) @ [arranged a (xs @ replicate (n - length xs) BLIND_VALUE) n]) \<and>
     m_matData_Y t' = map (\<lambda>f. nths f {i. int i \<notin> set (drop (length xs) a)})
        (tl (m_matData_Y t) @ [arranged a (ys @ replicate (n - length xs) BLIND_VALUE) n]) \<and>
     m_vecIDs t' = nths (m_vecIDs t) {i. int i \<notin> set (drop (length xs) a)} \<and>
     m_vecGoodDataCount t' =
        map (\<lambda>g. g + 1) (nths (m_vecGoodDataCount t) {i. int i \<notin> set (drop (length xs) a)}) \<and>
     tracker_shape t' (length xs)"
proof -
  let ?m = "length xs"
  let ?nX = "xs @ replicate (n - ?m) BLIND_VALUE"
  let ?nY = "ys @ replicate (n - ?m) BLIND_VALUE"
  obtain a where perm: "is_permutation a n"
    and run: "push_data_intern_diff_gtz solve (int n - int ?m) t (xs, ys) =
       Inr (t\<lparr>m_matData_X := map (\<lambda>v. removeElemsFromVector v (sort (rev (drop ?m a))))
                 (tl (m_matData_X t @ [arranged a ?nX n])),
              m_matData_Y := map (\<lambda>v. removeElemsFromVector v (sort (rev (drop ?m a))))
                 (tl (m_matData_Y t @ [arranged a ?nY n])),
              m_vecIDs := removeElemsFromVector (m_vecIDs t) (sort (rev (drop ?m a))),
              m_vecCurrentAssignment := a,
              m_vecGoodDataCount := map (\<lambda>g. g + 1)
                 (removeElemsFromVector (m_vecGoodDataCount t) (sort (rev (drop ?m a))))\<rparr>)"
    using diff_gtz_ok [OF assms(1,2) refl assms(4) [symmetric] assms(5)] by blast
  have la: "length a = n"
    using perm by (rule is_permutation_length)
  have dist: "distinct (rev (drop ?m a))"
    using is_permutation_distinct [OF perm] by simp
  have rng: "\<forall>q\<in>set (rev (drop ?m a)). 0 \<le> q \<and> q < int n"
    using is_permutation_set [OF perm] set_drop_subset [of ?m a] by auto
  then have nn: "\<forall>q\<in>set (rev (drop ?m a)). 0 \<le> q"
    by simp
  have rem: "removeElemsFromVector v (sort (rev (drop ?m a)))
      = nths v {i. int i \<notin> set (drop ?m a)}" for v :: "int list"
    using removeElemsFromVector_nths [OF dist nn, of v] by simp
  have remlen: "length (nths v {i. int i \<notin> set (drop ?m a)}) = ?m" if "length v = n" for v :: "int list"
  proof -
    have "length (removeElemsFromVector v (sort (rev (drop ?m a)))) = length v - length (rev (drop ?m a))"
      using rng that by (intro length_removeElemsFromVector [OF dist]) simp
    then show ?thesis
      using that la assms(5) by (simp add: rem)
  qed
  have fr: "length (m_matData_X t) = 3" "length (m_matData_X t ! 0) = n"
    "length (m_matData_Y t) = 3"
    using assms(2) shape_frames [of "m_matData_X t" n] shape_frames [of "m_matData_Y t" n]
    by (simp_all add: tracker_shape_def)
  have ne: "m_matData_X t \<noteq> []" "m_matData_Y t \<noteq> []"
    using fr by auto
  let ?t' = "t\<lparr>m_matData_X := map (\<lambda>f. nths f {i. int i \<notin> set (drop ?m a)})
                 (tl (m_matData_X t) @ [arranged a ?nX n]),
              m_matData_Y := map (\<lambda>f. nths f {i. int i \<notin> set (drop ?m a)})
                 (tl (m_matData_Y t) @ [arranged a ?nY n]),
              m_vecIDs := nths (m_vecIDs t) {i. int i \<notin> set (drop ?m a)},
              m_vecCurrentAssignment := a,
              m_vecGoodDataCount := map (\<lambda>g. g + 1)
                 (nths (m_vecGoodDataCount t) {i. int i \<notin> set (drop ?m a)})\<rparr>"
  have "pushData solve t xs ys =
     finish (push_data_intern_diff_gtz solve (int n - int ?m) t (xs, ys))"
    using assms(3,4) ne(1) fr(2) assms(5) by (rule pushData_gtz)
  then have push: "pushData solve t xs ys = Updated ?t'"
    using ne by (simp add: run finish_def rem)
  have blind: "arranged a ?nX n ! nat (a ! i) = BLIND_VALUE" if "?m \<le> i \<and> i < n" for i
  proof -
    have "arranged a ?nX n ! nat (a ! i) = ?nX ! i"
      using perm that by (intro arranged_nth) simp_all
    moreover have "i - ?m < n - ?m"
      using that by linarith
    ultimately show ?thesis
      using that by (simp add: nth_append)
  qed
  have shX: "map length (map (\<lambda>f. nths f {i. int i \<notin> set (drop ?m a)})
                 (tl (m_matData_X t) @ [arranged a ?nX n])) = replicate 3 ?m"
  proof (rule frames_mapped_shape)
    show "map length (tl (m_matData_X t) @ [arranged a ?nX n]) = replicate 3 n"
      using shape_after_push [of "m_matData_X t" n "arranged a ?nX n"] assms(2) ne
      by (simp add: tracker_shape_def length_arranged)
  qed (rule remlen)
  have shY: "map length (map (\<lambda>f. nths f {i. int i \<notin> set (drop ?m a)})
                 (tl (m_matData_Y t) @ [arranged a ?nY n])) = replicate 3 ?m"
  proof (rule frames_mapped_shape)
    show "map length (tl (m_matData_Y t) @ [arranged a ?nY n]) = replicate 3 n"
      using shape_after_push [of "m_matData_Y t" n "arranged a ?nY n"] assms(2) ne
      by (simp add: tracker_shape_def length_arranged)
  qed (rule remlen)
  have sh: "tracker_shape ?t' ?m"
    using shX shY remlen [of "m_vecIDs t"] remlen [of "m_vecGoodDataCount t"] assms(2)
    by (simp add: tracker_shape_def)
  have "distinct (drop ?m a)" "length (drop ?m a) = n - ?m"
    using dist la by simp_all
  with push perm blind sh show ?thesis
    by (intro exI [of _ ?t'] exI [of _ a]) simp
qed

theorem shrink_tick_witness:
  "\<exists>t' a. pushData (\<lambda>M. rev (map int [0..<length M]))
      \<lparr>m_matData_X = [[0, 10, 20], [0, 10, 20], [0, 10, 20]],
        m_matData_Y = [[0, 10, 20], [0, 10, 20], [0, 10, 20]],
        m_vecIDs = [0, 1, 2], m_vecCurrentAssignment = [], m_vecGoodDataCount = [1, 1, 1]\<rparr>
      [21, 11] [21, 11] = Updated t' \<and>
     m_vecCurrentAssignment t' = a \<and> a = [2, 1, 0] \<and> is_permutation a 3 \<and>
     drop 2 a = [0] \<and>
     m_matData_X t' = [[10, 20], [10, 20], [11, 21]] \<and>
     m_vecIDs t' = [1, 2] \<and> m_vecGoodDataCount t' = [2, 2] \<and> tracker_shape t' 2"
proof -
  let ?solve = "\<lambda>M :: int list list. rev (map int [0..<length M])"
  let ?t = "\<lparr>m_matData_X = [[0, 10, 20], [0, 10, 20], [0, 10, 20]],
        m_matData_Y = [[0, 10, 20], [0, 10, 20], [0, 10, 20]],
        m_vecIDs = [0, 1, 2], m_vecCurrentAssignment = [], m_vecGoodDataCount = [1, 1, 1]\<rparr>"
  let ?r = "\<lparr>m_matData_X = [[10, 20], [10, 20], [11, 21]],
        m_matData_Y = [[10, 20], [10, 20], [11, 21]],
        m_vecIDs = [1, 2], m_vecCurrentAssignment = [2, 1, 0], m_vecGoodDataCount = [2, 2]\<rparr>"
  have sh: "tracker_shape ?t 3"
    by (simp add: tracker_shape_def replicate_numeral_Cons)
  have ev: "pushData ?solve ?t [21, 11] [21, 11] = Updated ?r"
    by (simp add: tick_eval shrink_eval)
  obtain t' a where h: "pushData ?solve ?t [21, 11] [21, 11] = Updated t'"
    "m_vecCurrentAssignment t' = a" "is_permutation a 3"
    "tracker_shape t' (length [21, 11 :: int])"
    using shrink_tick [OF solver_ok_rev sh, of "[21, 11]" "[21, 11]"] by auto
  from h(1) ev have t': "t' = ?r"
    by simp
  then have a: "a = [2, 1, 0]"
    using h(2) by simp
  have "is_permutation [2, 1, 0] 3" "tracker_shape ?r 2"
    using h(3,4) a t' by (simp_all add: numeral_2_eq_2)
  with ev show ?thesis
    by (intro exI [of _ ?r] exI [of _ "[2, 1, 0]"]) simp
qed

subsection \<open>The loops of the tick on more points\<close>

lemma foldE_append: "foldE f (xs @ ys) s = bindE (foldE f xs s) (foldE f ys)"
  by (induction xs arbitrary: s) (simp_all add: bindE_def split: sum.splits)

lemma foldE_single: "foldE f [x] = f x"
  by (rule ext) (simp add: bindE_def split: sum.splits)

lemma foldE_snoc: "foldE f (xs @ [x]) s = bindE (foldE f xs s) (f x)"
  by (simp add: foldE_append foldE_single del: foldE.simps)

lemma pad_step_ok:
  assumes "length dX = 3" "length dY = 3"
  shows "pad_step j (dX, dY) =
     Inr (map (\<lambda>f. f @ [BLIND_VALUE]) dX, map (\<lambda>f. f @ [BLIND_VALUE]) dY)"
proof -
  obtain a b c where dX: "dX = [a, b, c]"
    using assms(1) by (auto simp: length_Suc_conv numeral_3_eq_3)
  obtain a' b' c' where dY: "dY = [a', b', c']"
    using assms(2) by (auto simp: length_Suc_conv numeral_3_eq_3)
  show ?thesis
    unfolding dX dY
    by (simp add: pad_step_def push_back_frame_def vec_at_def vec_set_def upt_rec)
qed

lemma pad_loop:
  assumes "length dX = 3" "length dY = 3"
  shows "foldE pad_step [0..<k] (dX, dY) =
     Inr (map (\<lambda>f. f @ replicate k BLIND_VALUE) dX, map (\<lambda>f. f @ replicate k BLIND_VALUE) dY)"
proof (induction k)
  case 0
  then show ?case by simp
next
  case (Suc k)
  have "pad_step k (map (\<lambda>f. f @ replicate k BLIND_VALUE) dX, map (\<lambda>f. f @ replicate k BLIND_VALUE) dY)
      = Inr (map (\<lambda>f. f @ [BLIND_VALUE]) (map (\<lambda>f. f @ replicate k BLIND_VALUE) dX),
             map (\<lambda>f. f @ [BLIND_VALUE]) (map (\<lambda>f. f @ replicate k BLIND_VALUE) dY))"
    using assms by (intro pad_step_ok) simp_all
  moreover have "replicate k BLIND_VALUE @ [BLIND_VALUE] = replicate (Suc k) BLIND_VALUE"
    by (simp add: replicate_append_same)
  ultimately show ?case
    by (simp add: foldE_snoc Suc.IH o_def del: replicate_Suc)
qed

lemma mat_set_ok:
  assumes "j < length d" "y < length (d ! j)"
  shows "mat_set d (int j) (int y) v = Inr (d[j := (d ! j)[y := v]])"
  using assms by (simp add: mat_set_def vec_at_nat vec_set_nat)

lemma map_length_update:
  "j < length d \<Longrightarrow> map length (d[j := (d ! j)[y := v]]) = map length d"
  by (simp add: map_update list_update_same_conv)

lemma backfill_inner:
  assumes "map length dX = replicate 3 n" "map length dY = replicate 3 n"
    "y < n" "i < length cX" "i < length cY" "\<forall>j\<in>set js. j < 3"
  shows "\<exists>dX' dY'.
     foldE (\<lambda>j d.
              bindE (vec_at cX (int i)) (\<lambda>vx.
              bindE (mat_set (fst d) (int j) (int y) vx) (\<lambda>dX.
              bindE (vec_at cY (int i)) (\<lambda>vy.
              bindE (mat_set (snd d) (int j) (int y) vy) (\<lambda>dY. Inr (dX, dY))))))
            js (dX, dY) = Inr (dX', dY') \<and>
     map length dX' = replicate 3 n \<and> map length dY' = replicate 3 n"
  using assms(1,2,6)
proof (induction js arbitrary: dX dY)
  case Nil
  then show ?case by simp
next
  case (Cons j js)
  have j: "j < 3" using Cons.prems(3) by simp
  have lX: "length dX = 3" "length (dX ! j) = n"
    using Cons.prems(1) j by (metis length_map length_replicate, metis nth_map nth_replicate length_map length_replicate)
  have lY: "length dY = 3" "length (dY ! j) = n"
    using Cons.prems(2) j by (metis length_map length_replicate, metis nth_map nth_replicate length_map length_replicate)
  let ?dX = "dX[j := (dX ! j)[y := cX ! i]]"
  let ?dY = "dY[j := (dY ! j)[y := cY ! i]]"
  have sX: "mat_set dX (int j) (int y) (cX ! i) = Inr ?dX"
    using lX j assms(3) by (intro mat_set_ok) simp_all
  have sY: "mat_set dY (int j) (int y) (cY ! i) = Inr ?dY"
    using lY j assms(3) by (intro mat_set_ok) simp_all
  have "map length ?dX = replicate 3 n" "map length ?dY = replicate 3 n"
    using Cons.prems(1,2) lX lY j by (simp_all add: map_length_update)
  moreover have "\<forall>j\<in>set js. j < 3"
    using Cons.prems(3) by simp
  ultimately obtain dX' dY' where
    "foldE (\<lambda>j d.
              bindE (vec_at cX (int i)) (\<lambda>vx.
              bindE (mat_set (fst d) (int j) (int y) vx) (\<lambda>dX.
              bindE (vec_at cY (int i)) (\<lambda>vy.
              bindE (mat_set (snd d) (int j) (int y) vy) (\<lambda>dY. Inr (dX, dY))))))
            js (?dX, ?dY) = Inr (dX', dY')"
    "map length dX' = replicate 3 n" "map length dY' = replicate 3 n"
    using Cons.IH [of ?dX ?dY] by blast
  then show ?case
    using assms(4,5) by (simp add: vec_at_nat sX sY)
qed

lemma backfill_step_ok:
  assumes "map length dX = replicate 3 n" "map length dY = replicate 3 n"
    "b + i < n" "i < length cX" "i < length cY" "i < length newIDS"
  shows "\<exists>dX' dY'.
     backfill_step (cX, cY) newIDS (int b) i ((dX, dY), ids, good) =
       Inr ((dX', dY'), ids @ [newIDS ! i], good @ [0]) \<and>
     map length dX' = replicate 3 n \<and> map length dY' = replicate 3 n"
proof -
  have "\<forall>j\<in>set [0..<3]. j < 3"
    by simp
  then obtain dX' dY' where
    "foldE (\<lambda>j d.
              bindE (vec_at cX (int i)) (\<lambda>vx.
              bindE (mat_set (fst d) (int j) (int (b + i)) vx) (\<lambda>dX.
              bindE (vec_at cY (int i)) (\<lambda>vy.
              bindE (mat_set (snd d) (int j) (int (b + i)) vy) (\<lambda>dY. Inr (dX, dY))))))
            [0..<3] (dX, dY) = Inr (dX', dY')"
    "map length dX' = replicate 3 n" "map length dY' = replicate 3 n"
    using backfill_inner [OF assms(1,2,3,4,5), of "[0..<3]"] by blast
  then show ?thesis
    using assms(6) by (simp add: backfill_step_def vec_at_nat)
qed

lemma backfill_loop:
  assumes "map length dX = replicate 3 n" "map length dY = replicate 3 n"
    "b + k \<le> n" "k \<le> length cX" "k \<le> length cY" "k \<le> length newIDS"
  shows "\<exists>dX' dY'.
     foldE (backfill_step (cX, cY) newIDS (int b)) [0..<k] ((dX, dY), ids, good) =
       Inr ((dX', dY'), ids @ take k newIDS, good @ replicate k 0) \<and>
     map length dX' = replicate 3 n \<and> map length dY' = replicate 3 n"
  using assms(3,4,5,6)
proof (induction k)
  case 0
  then show ?case using assms(1,2) by simp
next
  case (Suc k)
  then obtain dX1 dY1 where 1:
    "foldE (backfill_step (cX, cY) newIDS (int b)) [0..<k] ((dX, dY), ids, good) =
       Inr ((dX1, dY1), ids @ take k newIDS, good @ replicate k 0)"
    "map length dX1 = replicate 3 n" "map length dY1 = replicate 3 n"
    by auto
  obtain dX' dY' where 2:
    "backfill_step (cX, cY) newIDS (int b) k ((dX1, dY1), ids @ take k newIDS, good @ replicate k 0) =
       Inr ((dX', dY'), (ids @ take k newIDS) @ [newIDS ! k], (good @ replicate k 0) @ [0])"
    "map length dX' = replicate 3 n" "map length dY' = replicate 3 n"
    using backfill_step_ok [OF 1(2,3), of b k cX cY newIDS "ids @ take k newIDS" "good @ replicate k 0"]
      Suc.prems by auto
  have "take k newIDS @ [newIDS ! k] = take (Suc k) newIDS"
    using Suc.prems(4) by (simp add: take_Suc_conv_app_nth)
  moreover have "replicate k (0::int) @ [0] = replicate (Suc k) 0"
    by (simp add: replicate_append_same)
  ultimately show ?case
    using 1 2 by (simp add: foldE_snoc del: replicate_Suc)
qed

subsection \<open>Minting identities\<close>

lemma find_free_spec:
  assumes "\<forall>v. 0 \<le> v \<and> v < i \<longrightarrow> v |\<in>| lut" "0 \<le> i"
  shows "i \<le> find_free lut i \<and> find_free lut i |\<notin>| lut \<and>
     (\<forall>v. 0 \<le> v \<and> v < find_free lut i \<longrightarrow> v |\<in>| lut)"
  using assms
proof (induction lut i rule: find_free.induct)
  case (1 lut i)
  show ?case
  proof (cases "i |\<in>| lut")
    case True
    have "\<forall>v. 0 \<le> v \<and> v < i + 1 \<longrightarrow> v |\<in>| lut"
    proof (intro allI impI)
      fix v assume "0 \<le> v \<and> v < i + 1"
      then have "v < i \<or> v = i" by linarith
      then show "v |\<in>| lut"
        using True "1.prems"(1) \<open>0 \<le> v \<and> v < i + 1\<close> by auto
    qed
    moreover have "0 \<le> i + 1"
      using "1.prems"(2) by simp
    ultimately have "i + 1 \<le> find_free lut (i + 1) \<and> find_free lut (i + 1) |\<notin>| lut \<and>
       (\<forall>v. 0 \<le> v \<and> v < find_free lut (i + 1) \<longrightarrow> v |\<in>| lut)"
      using "1.IH" [OF True] by blast
    moreover have "find_free lut i = find_free lut (i + 1)"
      using True by (subst find_free.simps) simp
    ultimately show ?thesis
      by simp
  next
    case False
    then have "find_free lut i = i"
      by (subst find_free.simps) simp
    with False "1.prems" show ?thesis
      by simp
  qed
qed

lemma mint_ids_acc: "mint_ids n lut i acc = acc @ mint_ids n lut i []"
proof (induction n arbitrary: lut i acc)
  case 0
  then show ?case by simp
next
  case (Suc n)
  have "mint_ids (Suc n) lut i acc
      = (acc @ [find_free lut i]) @ mint_ids n (finsert (find_free lut i) lut) (find_free lut i) []"
    using Suc [of "finsert (find_free lut i) lut" "find_free lut i" "acc @ [find_free lut i]"]
    by (simp add: Let_def)
  moreover have "mint_ids (Suc n) lut i []
      = [find_free lut i] @ mint_ids n (finsert (find_free lut i) lut) (find_free lut i) []"
    using Suc [of "finsert (find_free lut i) lut" "find_free lut i" "[find_free lut i]"]
    by (simp add: Let_def)
  ultimately show ?case
    by simp
qed

lemma mint_ids_Suc:
  "mint_ids (Suc n) lut i [] =
     find_free lut i # mint_ids n (finsert (find_free lut i) lut) (find_free lut i) []"
  using mint_ids_acc [of n "finsert (find_free lut i) lut" "find_free lut i" "[find_free lut i]"]
  by (simp add: Let_def)

lemma length_mint_ids: "length (mint_ids n lut i []) = n"
  by (induction n arbitrary: lut i) (simp_all add: mint_ids_Suc del: mint_ids.simps(2))

lemma mint_ids_least:
  assumes "\<forall>v. 0 \<le> v \<and> v < i \<longrightarrow> v |\<in>| lut" "0 \<le> i" "j < n"
  shows "0 \<le> mint_ids n lut i [] ! j \<and>
     mint_ids n lut i [] ! j \<notin> fset lut \<union> set (take j (mint_ids n lut i [])) \<and>
     (\<forall>v. 0 \<le> v \<and> v < mint_ids n lut i [] ! j \<longrightarrow>
         v \<in> fset lut \<union> set (take j (mint_ids n lut i [])))"
  using assms
proof (induction n arbitrary: lut i j)
  case 0
  then show ?case by simp
next
  case (Suc n)
  let ?r = "find_free lut i"
  let ?rest = "mint_ids n (finsert ?r lut) ?r []"
  have r: "i \<le> ?r" "?r |\<notin>| lut" "\<forall>v. 0 \<le> v \<and> v < ?r \<longrightarrow> v |\<in>| lut"
    using find_free_spec [OF Suc.prems(1,2)] by simp_all
  have eq: "mint_ids (Suc n) lut i [] = ?r # ?rest"
    by (rule mint_ids_Suc)
  show ?case
  proof (cases j)
    case 0
    then show ?thesis
      unfolding eq using r Suc.prems(2) by simp
  next
    case (Suc j')
    have "\<forall>v. 0 \<le> v \<and> v < ?r \<longrightarrow> v |\<in>| finsert ?r lut"
      using r(3) by simp
    moreover have "0 \<le> ?r"
      using r(1) Suc.prems(2) by simp
    moreover have "j' < n"
      using Suc Suc.prems(3) by simp
    ultimately have "0 \<le> ?rest ! j' \<and>
       ?rest ! j' \<notin> fset (finsert ?r lut) \<union> set (take j' ?rest) \<and>
       (\<forall>v. 0 \<le> v \<and> v < ?rest ! j' \<longrightarrow> v \<in> fset (finsert ?r lut) \<union> set (take j' ?rest))"
      by (rule Suc.IH)
    then show ?thesis
      unfolding eq Suc by simp
  qed
qed

lemma get_n_new_ids_length: "length (get_n_new_ids ids (int k)) = k"
  by (simp add: get_n_new_ids_def length_mint_ids)

lemma get_n_new_ids_least:
  assumes "j < k"
  shows "0 \<le> get_n_new_ids ids (int k) ! j \<and>
     get_n_new_ids ids (int k) ! j \<notin> set ids \<union> set (take j (get_n_new_ids ids (int k))) \<and>
     (\<forall>v. 0 \<le> v \<and> v < get_n_new_ids ids (int k) ! j \<longrightarrow>
         v \<in> set ids \<union> set (take j (get_n_new_ids ids (int k))))"
proof -
  have "\<forall>v. 0 \<le> v \<and> v < (0::int) \<longrightarrow> v |\<in>| fset_of_list ids"
    by auto
  then show ?thesis
    using mint_ids_least [of 0 "fset_of_list ids" j k] assms
    by (simp add: get_n_new_ids_def fset_of_list.rep_eq)
qed

lemma distinct_append_fresh:
  assumes "distinct ids" "\<forall>j<length new. new ! j \<notin> set ids \<union> set (take j new)"
  shows "distinct (ids @ new)"
  using assms(2)
proof (induction new rule: rev_induct)
  case Nil
  then show ?case using assms(1) by simp
next
  case (snoc x xs)
  have "\<forall>j<length xs. xs ! j \<notin> set ids \<union> set (take j xs)"
  proof (intro allI impI)
    fix j assume j: "j < length xs"
    then have "(xs @ [x]) ! j \<notin> set ids \<union> set (take j (xs @ [x]))"
      using snoc.prems by simp
    then show "xs ! j \<notin> set ids \<union> set (take j xs)"
      using j by (simp add: nth_append)
  qed
  then have "distinct (ids @ xs)"
    by (rule snoc.IH)
  moreover have "x \<notin> set ids \<union> set xs"
    using snoc.prems [rule_format, of "length xs"] by simp
  ultimately show ?case
    by simp
qed

subsection \<open>The tick on more points\<close>

lemma collect_exact:
  assumes "is_permutation a dimn" "k \<le> dimn" "length nX = dimn" "length nY = dimn"
  shows "\<exists>cX cY. foldE (collect_step a (nX, nY) (int dimn - int k)) [0..<dimn] ([], []) = Inr (cX, cY) \<and>
        length cX = k \<and> length cY = k"
proof -
  have len: "length a = dimn"
    using assms(1) by (rule is_permutation_length)
  have cnt: "length (filter (\<lambda>x. int dimn - int k \<le> a ! x) [0..<dimn]) = k"
    using length_filter_nth_upt [of "\<lambda>v. int dimn - int k \<le> v" a]
      is_permutation_count_tail [OF assms(1,2)] len by simp
  have "\<forall>x\<in>set [0..<dimn]. x < length a \<and>
     (int dimn - int k \<le> a ! x \<longrightarrow> 0 \<le> a ! x \<and> a ! x < int (length nX) \<and> a ! x < int (length nY))"
    using is_permutation_nth [OF assms(1)] assms(3,4) len by simp
  then have "foldE (collect_step a (nX, nY) (int dimn - int k)) [0..<dimn] ([], []) =
     Inr ([] @ map (\<lambda>x. nX ! nat (a ! x)) (filter (\<lambda>x. int dimn - int k \<le> a ! x) [0..<dimn]),
          [] @ map (\<lambda>x. nY ! nat (a ! x)) (filter (\<lambda>x. int dimn - int k \<le> a ! x) [0..<dimn]))"
    by (rule collect_loop)
  with cnt show ?thesis
    by simp
qed

lemma padded_shape:
  assumes "map length d = replicate 3 n"
  shows "map length (map (\<lambda>f. f @ replicate k BLIND_VALUE) d) = replicate 3 (n + k)"
  using assms by (intro frames_mapped_shape [of d n]) simp_all

lemma diff_ltz_run:
  assumes "tracker_shape t n" "length xs = m" "length ys = m" "n < m"
  shows "\<exists>predX predY M.
     predict m (map (\<lambda>f. f @ replicate (m - n) BLIND_VALUE) (m_matData_X t))
        (m_vecGoodDataCount t @ replicate (m - n) 1) = Inr predX \<and>
     predict m (map (\<lambda>f. f @ replicate (m - n) BLIND_VALUE) (m_matData_Y t))
        (m_vecGoodDataCount t @ replicate (m - n) 1) = Inr predY \<and>
     createDistMat (predX, predY) (xs, ys) = Inr M \<and> length M = m \<and>
     (is_permutation (solve M) m \<longrightarrow>
        (\<exists>cols dX dY.
           collect_new_columns (solve M) (xs, ys) m (int (m - n)) = Inr cols \<and>
           length (fst cols) = m - n \<and> length (snd cols) = m - n \<and>
           backfill_new_slots cols (get_n_new_ids (m_vecIDs t) (int (m - n))) m (int (m - n))
               ((map (\<lambda>f. f @ replicate (m - n) BLIND_VALUE) (m_matData_X t),
                 map (\<lambda>f. f @ replicate (m - n) BLIND_VALUE) (m_matData_Y t)),
                m_vecIDs t, m_vecGoodDataCount t) =
             Inr ((dX, dY), m_vecIDs t @ get_n_new_ids (m_vecIDs t) (int (m - n)),
                  m_vecGoodDataCount t @ replicate (m - n) 0) \<and>
           map length dX = replicate 3 m \<and> map length dY = replicate 3 m \<and>
           push_data_intern_diff_ltz solve (int n - int m) t (xs, ys) =
             Inr (False,
                  t\<lparr>m_matData_X := tl (dX @ [arranged (solve M) xs m]),
                    m_matData_Y := tl (dY @ [arranged (solve M) ys m]),
                    m_vecIDs := m_vecIDs t @ get_n_new_ids (m_vecIDs t) (int (m - n)),
                    m_vecCurrentAssignment := solve M,
                    m_vecGoodDataCount :=
                      map (\<lambda>g. g + 1) (m_vecGoodDataCount t @ replicate (m - n) 0)\<rparr>)))"
proof -
  let ?k = "m - n"
  define pdX where "pdX = map (\<lambda>f. f @ replicate ?k BLIND_VALUE) (m_matData_X t)"
  define pdY where "pdY = map (\<lambda>f. f @ replicate ?k BLIND_VALUE) (m_matData_Y t)"
  define good1 where "good1 = m_vecGoodDataCount t @ replicate ?k 1"
  define DIFF where "DIFF = int ?k"
  define new where "new = get_n_new_ids (m_vecIDs t) DIFF"
  have D: "(int n - int m) * (- 1) = DIFF" "nat DIFF = ?k" "n + ?k = m"
    using assms(4) by (simp_all add: DIFF_def)
  have sh: "map length (m_matData_X t) = replicate 3 n" "map length (m_matData_Y t) = replicate 3 n"
    "length (m_vecIDs t) = n" "length (m_vecGoodDataCount t) = n"
    using assms(1) by (simp_all add: tracker_shape_def)
  have fr: "length (m_matData_X t) = 3" "length (m_matData_Y t) = 3"
    using shape_frames [OF sh(1)] shape_frames [OF sh(2)] by simp_all
  have pad: "foldE pad_step [0..<?k] (m_matData_X t, m_matData_Y t) = Inr (pdX, pdY)"
    unfolding pdX_def pdY_def using fr by (rule pad_loop)
  have psh: "map length pdX = replicate 3 m" "map length pdY = replicate 3 m"
    unfolding pdX_def pdY_def
    using padded_shape [OF sh(1), of ?k] padded_shape [OF sh(2), of ?k] D(3) by simp_all
  have f0: "vec_at pdX 0 = Inr (pdX ! 0)" "length (pdX ! 0) = m"
    using shape_frames [OF psh(1)] by (simp_all add: vec_at_def)
  have lg1: "length good1 = m"
    using sh(4) D(3) by (simp add: good1_def)
  obtain predX where pX: "predict m pdX good1 = Inr predX" "length predX = m"
    using predict_shape [OF psh(1) lg1] by blast
  obtain predY where pY: "predict m pdY good1 = Inr predY" "length predY = m"
    using predict_shape [OF psh(2) lg1] by blast
  have g2: "take (nat (int (length good1) - DIFF)) good1 = m_vecGoodDataCount t"
    using sh(4) by (simp add: good1_def DIFF_def)
  obtain M where M: "createDistMat (predX, predY) (xs, ys) = Inr M" "length M = m"
    using createDistMat_ok [of predX m predY xs ys] pX(2) pY(2) assms(2,3) by simp
  have run: "\<exists>cols dX dY.
           collect_new_columns (solve M) (xs, ys) m DIFF = Inr cols \<and>
           length (fst cols) = ?k \<and> length (snd cols) = ?k \<and>
           backfill_new_slots cols new m DIFF ((pdX, pdY), m_vecIDs t, m_vecGoodDataCount t) =
             Inr ((dX, dY), m_vecIDs t @ new, m_vecGoodDataCount t @ replicate ?k 0) \<and>
           map length dX = replicate 3 m \<and> map length dY = replicate 3 m \<and>
           push_data_intern_diff_ltz solve (int n - int m) t (xs, ys) =
             Inr (False,
                  t\<lparr>m_matData_X := tl (dX @ [arranged (solve M) xs m]),
                    m_matData_Y := tl (dY @ [arranged (solve M) ys m]),
                    m_vecIDs := m_vecIDs t @ new,
                    m_vecCurrentAssignment := solve M,
                    m_vecGoodDataCount := map (\<lambda>g. g + 1) (m_vecGoodDataCount t @ replicate ?k 0)\<rparr>)"
    if perm: "is_permutation (solve M) m"
  proof -
    have km: "?k \<le> m"
      by simp
    have bnd: "int m - DIFF = int m - int ?k"
      by (simp add: DIFF_def)
    obtain cX cY where col0:
      "foldE (collect_step (solve M) (xs, ys) (int m - int ?k)) [0..<m] ([], []) = Inr (cX, cY)"
      "length cX = ?k" "length cY = ?k"
      using collect_exact [OF perm km assms(2,3)] by blast
    have col: "collect_new_columns (solve M) (xs, ys) m DIFF = Inr (cX, cY)"
      unfolding collect_new_columns_def bnd by (rule col0(1))
    have ln: "length new = ?k"
      unfolding new_def DIFF_def by (rule get_n_new_ids_length)
    have base: "int m - DIFF = int n"
      using assms(4) by (simp add: DIFF_def)
    obtain dX dY where bf0:
      "foldE (backfill_step (cX, cY) new (int n)) [0..<?k]
          ((pdX, pdY), m_vecIDs t, m_vecGoodDataCount t) =
         Inr ((dX, dY), m_vecIDs t @ take ?k new, m_vecGoodDataCount t @ replicate ?k 0)"
      "map length dX = replicate 3 m" "map length dY = replicate 3 m"
      using backfill_loop [OF psh, of n ?k cX cY new "m_vecIDs t" "m_vecGoodDataCount t"]
        D(3) col0(2,3) ln by auto
    have bf: "backfill_new_slots (cX, cY) new m DIFF ((pdX, pdY), m_vecIDs t, m_vecGoodDataCount t) =
         Inr ((dX, dY), m_vecIDs t @ new, m_vecGoodDataCount t @ replicate ?k 0)"
      unfolding backfill_new_slots_def base D(2) using bf0(1) ln by simp
    have pr: "push_and_rearrange_data m (dX, dY) (solve M) (xs, ys) =
       Inr (tl (dX @ [arranged (solve M) xs m]), tl (dY @ [arranged (solve M) ys m]))"
      using perm assms(2,3) by (rule push_and_rearrange_data_ok)
    have w: "int (length cX) = DIFF"
      using col0(2) by (simp add: DIFF_def)
    have "push_data_intern_diff_ltz solve (int n - int m) t (xs, ys) =
             Inr (False,
                  t\<lparr>m_matData_X := tl (dX @ [arranged (solve M) xs m]),
                    m_matData_Y := tl (dY @ [arranged (solve M) ys m]),
                    m_vecIDs := m_vecIDs t @ new,
                    m_vecCurrentAssignment := solve M,
                    m_vecGoodDataCount := map (\<lambda>g. g + 1) (m_vecGoodDataCount t @ replicate ?k 0)\<rparr>)"
      unfolding push_data_intern_diff_ltz_def Let_def D pad good1_def [symmetric] new_def [symmetric]
      by (simp add: f0 pX(1) pY(1) g2 M(1) col w bf pr del: replicate_Suc)
    with col col0(2,3) bf bf0(2,3) show ?thesis
      by (intro exI [of _ "(cX, cY)"] exI [of _ dX] exI [of _ dY]) simp
  qed
  show ?thesis
    using pX(1) pY(1) M run
    unfolding pdX_def pdY_def good1_def new_def DIFF_def
    by (intro exI [of _ predX] exI [of _ predY] exI [of _ M]) blast
qed

lemma diff_ltz_ok:
  assumes "solver_ok solve" "tracker_shape t n" "length xs = m" "length ys = m" "n < m"
  shows "\<exists>a dX dY. is_permutation a m \<and>
     map length dX = replicate 3 m \<and> map length dY = replicate 3 m \<and>
     push_data_intern_diff_ltz solve (int n - int m) t (xs, ys) =
       Inr (False,
            t\<lparr>m_matData_X := tl (dX @ [arranged a xs m]),
              m_matData_Y := tl (dY @ [arranged a ys m]),
              m_vecIDs := m_vecIDs t @ get_n_new_ids (m_vecIDs t) (int (m - n)),
              m_vecCurrentAssignment := a,
              m_vecGoodDataCount := map (\<lambda>g. g + 1) (m_vecGoodDataCount t @ replicate (m - n) 0)\<rparr>)"
proof -
  obtain M where M: "length M = m"
    and run: "is_permutation (solve M) m \<longrightarrow>
        (\<exists>dX dY.
           map length dX = replicate 3 m \<and> map length dY = replicate 3 m \<and>
           push_data_intern_diff_ltz solve (int n - int m) t (xs, ys) =
             Inr (False,
                  t\<lparr>m_matData_X := tl (dX @ [arranged (solve M) xs m]),
                    m_matData_Y := tl (dY @ [arranged (solve M) ys m]),
                    m_vecIDs := m_vecIDs t @ get_n_new_ids (m_vecIDs t) (int (m - n)),
                    m_vecCurrentAssignment := solve M,
                    m_vecGoodDataCount :=
                      map (\<lambda>g. g + 1) (m_vecGoodDataCount t @ replicate (m - n) 0)\<rparr>))"
    using diff_ltz_run [OF assms(2,3,4,5), of solve] by blast
  have "is_permutation (solve M) m"
    using assms(1) M by (rule solver_ok_permutation)
  with run show ?thesis
    by blast
qed

lemma find_free_skip: "i |\<in>| lut \<Longrightarrow> find_free lut i = find_free lut (i + 1)"
  by (subst find_free.simps) simp

lemma find_free_stop: "i |\<notin>| lut \<Longrightarrow> find_free lut i = i"
  by (subst find_free.simps) simp

lemma mint_ids_numeral:
  "mint_ids (numeral k) lut i ids =
     (let i' = find_free lut i in mint_ids (pred_numeral k) (finsert i' lut) i' (ids @ [i']))"
  by (simp add: numeral_eq_Suc)

lemmas growth_eval = find_free_skip find_free_stop fset_of_list_elem mint_ids_numeral

text \<open>
  C5. A tick with more new points than tracked slots, \<open>k\<close> more, appends exactly \<open>k\<close>
  identities to the identities of the tracker. Each of them is, at the moment it is
  minted, the smallest non-negative integer that is neither an identity of the tracker
  nor one minted before it in the same tick. The identities that existed before the tick
  are unchanged, there are as many identities afterwards as new points, and if they were
  pairwise distinct before the tick they are pairwise distinct after it. The solver is
  assumed to meet its contract.
\<close>

theorem growth_tick:
  assumes "solver_ok solve" "tracker_shape t n" "length xs = length ys" "n < length xs"
    "distinct (m_vecIDs t)"
  shows "\<exists>t' new. pushData solve t xs ys = Updated t' \<and>
     m_vecIDs t' = m_vecIDs t @ new \<and> length new = length xs - n \<and>
     (\<forall>j<length new. 0 \<le> new ! j \<and>
        new ! j \<notin> set (m_vecIDs t) \<union> set (take j new) \<and>
        (\<forall>v. 0 \<le> v \<and> v < new ! j \<longrightarrow> v \<in> set (m_vecIDs t) \<union> set (take j new))) \<and>
     length (m_vecIDs t') = length xs \<and> distinct (m_vecIDs t') \<and>
     tracker_shape t' (length xs)"
proof -
  let ?m = "length xs"
  let ?new = "get_n_new_ids (m_vecIDs t) (int (?m - n))"
  obtain a dX dY where perm: "is_permutation a ?m"
    and sh: "map length dX = replicate 3 ?m" "map length dY = replicate 3 ?m"
    and run: "push_data_intern_diff_ltz solve (int n - int ?m) t (xs, ys) =
       Inr (False, t\<lparr>m_matData_X := tl (dX @ [arranged a xs ?m]),
              m_matData_Y := tl (dY @ [arranged a ys ?m]),
              m_vecIDs := m_vecIDs t @ ?new,
              m_vecCurrentAssignment := a,
              m_vecGoodDataCount := map (\<lambda>g. g + 1) (m_vecGoodDataCount t @ replicate (?m - n) 0)\<rparr>)"
    using diff_ltz_ok [OF assms(1,2) refl assms(3) [symmetric] assms(4)] by blast
  let ?t' = "t\<lparr>m_matData_X := tl (dX @ [arranged a xs ?m]),
              m_matData_Y := tl (dY @ [arranged a ys ?m]),
              m_vecIDs := m_vecIDs t @ ?new,
              m_vecCurrentAssignment := a,
              m_vecGoodDataCount := map (\<lambda>g. g + 1) (m_vecGoodDataCount t @ replicate (?m - n) 0)\<rparr>"
  have ts: "map length (m_matData_X t) = replicate 3 n" "length (m_vecIDs t) = n"
    "length (m_vecGoodDataCount t) = n"
    using assms(2) by (simp_all add: tracker_shape_def)
  have fr: "length (m_matData_X t) = 3" "length (m_matData_X t ! 0) = n"
    using shape_frames [OF ts(1)] by simp_all
  have ne: "m_matData_X t \<noteq> []"
    using fr(1) by auto
  have pos: "0 < ?m"
    using assms(4) by linarith
  have "pushData solve t xs ys =
     finish (bindE (push_data_intern_diff_ltz solve (int n - int ?m) t (xs, ys))
               (\<lambda>r. Inr (snd r)))"
    using pos assms(3) ne fr(2) assms(4) by (rule pushData_ltz)
  then have push: "pushData solve t xs ys = Updated ?t'"
    by (simp add: run finish_def)
  have ln: "length ?new = ?m - n"
    by (rule get_n_new_ids_length)
  have least: "\<forall>j<length ?new. 0 \<le> ?new ! j \<and>
        ?new ! j \<notin> set (m_vecIDs t) \<union> set (take j ?new) \<and>
        (\<forall>v. 0 \<le> v \<and> v < ?new ! j \<longrightarrow> v \<in> set (m_vecIDs t) \<union> set (take j ?new))"
    using get_n_new_ids_least [of _ "?m - n" "m_vecIDs t"] ln by simp
  have dist: "distinct (m_vecIDs t @ ?new)"
    using assms(5) least by (intro distinct_append_fresh) simp_all
  have len: "length (m_vecIDs t @ ?new) = ?m"
    using ts(2) ln assms(4) by simp
  have "map length (tl (dX @ [arranged a xs ?m])) = replicate 3 ?m"
    "map length (tl (dY @ [arranged a ys ?m])) = replicate 3 ?m"
    using sh by (simp_all add: shape_after_push length_arranged)
  then have shape: "tracker_shape ?t' ?m"
    using len ts(3) assms(4) by (simp add: tracker_shape_def)
  show ?thesis
    using push ln least dist len shape
    by (intro exI [of _ ?t'] exI [of _ ?new]) simp
qed

theorem growth_tick_witness:
  "\<exists>t' new. pushData (\<lambda>M. rev (map int [0..<length M]))
      \<lparr>m_matData_X = [[0, 10], [1, 11], [2, 12]], m_matData_Y = [[0, 10], [1, 11], [2, 12]],
        m_vecIDs = [0, 2], m_vecCurrentAssignment = [], m_vecGoodDataCount = [3, 3]\<rparr>
      [50, 60, 13, 3] [50, 60, 13, 3] = Updated t' \<and>
     m_vecIDs t' = [0, 2] @ new \<and> new = [1, 3] \<and> distinct (m_vecIDs t') \<and>
     m_vecGoodDataCount t' = [4, 4, 1, 1] \<and> tracker_shape t' 4"
proof -
  let ?solve = "\<lambda>M :: int list list. rev (map int [0..<length M])"
  let ?t = "\<lparr>m_matData_X = [[0, 10], [1, 11], [2, 12]], m_matData_Y = [[0, 10], [1, 11], [2, 12]],
        m_vecIDs = [0, 2], m_vecCurrentAssignment = [], m_vecGoodDataCount = [3, 3]\<rparr>"
  let ?r = "\<lparr>m_matData_X = [[1, 11, 3, 13], [2, 12, 3, 13], [3, 13, 60, 50]],
        m_matData_Y = [[1, 11, 3, 13], [2, 12, 3, 13], [3, 13, 60, 50]],
        m_vecIDs = [0, 2, 1, 3], m_vecCurrentAssignment = [3, 2, 1, 0],
        m_vecGoodDataCount = [4, 4, 1, 1]\<rparr>"
  have sh: "tracker_shape ?t 2"
    by (simp add: tracker_shape_def replicate_numeral_Cons)
  have ev: "pushData ?solve ?t [50, 60, 13, 3] [50, 60, 13, 3] = Updated ?r"
    by (simp add: tick_eval growth_eval)
  obtain t' new where h: "pushData ?solve ?t [50, 60, 13, 3] [50, 60, 13, 3] = Updated t'"
    "m_vecIDs t' = m_vecIDs ?t @ new" "distinct (m_vecIDs t')"
    "tracker_shape t' (length [50, 60, 13, 3 :: int])"
    using growth_tick [OF solver_ok_rev sh, of "[50, 60, 13, 3]" "[50, 60, 13, 3]"] by auto
  from h(1) ev have t': "t' = ?r"
    by simp
  then have new: "new = [1, 3]"
    using h(2) by simp
  have "distinct (m_vecIDs ?r)" "tracker_shape ?r 4"
    using h(3,4) t' by (simp_all add: eval_nat_numeral)
  with ev new show ?thesis
    by (intro exI [of _ ?r] exI [of _ "[1, 3]"]) simp
qed

text \<open>
  C10. On the growth path, with \<open>k = m - n\<close> new points and the cost matrix of dimension
  \<open>m\<close>: \<^verbatim>\<open>push_data_intern_diff_ltz\<close> reaches the solver with an \<open>m \<times> m\<close> matrix, and if
  the solved assignment is a permutation of \<open>0..m-1\<close> then exactly \<open>k\<close> indices \<open>x < m\<close> have
  \<open>assignment[x] \<ge> m - k\<close>, the collecting loop returns exactly \<open>k\<close> values per axis, the
  test of the warning (the number collected differs from \<open>k\<close>) is false, so the function
  returns with the warning not printed, every \<open>newDataColsValues[i]\<close> with \<open>i < k\<close> that
  the backfill loop reads is inside the collected vectors, and the backfill loop completes.
\<close>

theorem growth_collects_exactly_k:
  assumes "tracker_shape t n" "length xs = m" "length ys = m" "n < m"
  shows "\<exists>predX predY M.
     predict m (map (\<lambda>f. f @ replicate (m - n) BLIND_VALUE) (m_matData_X t))
        (m_vecGoodDataCount t @ replicate (m - n) 1) = Inr predX \<and>
     predict m (map (\<lambda>f. f @ replicate (m - n) BLIND_VALUE) (m_matData_Y t))
        (m_vecGoodDataCount t @ replicate (m - n) 1) = Inr predY \<and>
     createDistMat (predX, predY) (xs, ys) = Inr M \<and> length M = m \<and>
     (is_permutation (solve M) m \<longrightarrow>
        card {x. x < m \<and> int m - int (m - n) \<le> solve M ! x} = m - n \<and>
        (\<exists>cols st.
           collect_new_columns (solve M) (xs, ys) m (int (m - n)) = Inr cols \<and>
           length (fst cols) = m - n \<and> length (snd cols) = m - n \<and>
           int (length (fst cols)) = int (m - n) \<and>
           (\<forall>i<m - n. vec_at (fst cols) (int i) = Inr (fst cols ! i) \<and>
                      vec_at (snd cols) (int i) = Inr (snd cols ! i)) \<and>
           backfill_new_slots cols (get_n_new_ids (m_vecIDs t) (int (m - n))) m (int (m - n))
               ((map (\<lambda>f. f @ replicate (m - n) BLIND_VALUE) (m_matData_X t),
                 map (\<lambda>f. f @ replicate (m - n) BLIND_VALUE) (m_matData_Y t)),
                m_vecIDs t, m_vecGoodDataCount t) = Inr st \<and>
           push_data_intern_diff_ltz solve (int n - int m) t (xs, ys) =
             Inr (False,
                  t\<lparr>m_matData_X := tl (fst (fst st) @ [arranged (solve M) xs m]),
                    m_matData_Y := tl (snd (fst st) @ [arranged (solve M) ys m]),
                    m_vecIDs := fst (snd st),
                    m_vecCurrentAssignment := solve M,
                    m_vecGoodDataCount := map (\<lambda>g. g + 1) (snd (snd st))\<rparr>)))"
proof -
  let ?pX = "map (\<lambda>f. f @ replicate (m - n) BLIND_VALUE) (m_matData_X t)"
  let ?pY = "map (\<lambda>f. f @ replicate (m - n) BLIND_VALUE) (m_matData_Y t)"
  let ?new = "get_n_new_ids (m_vecIDs t) (int (m - n))"
  obtain predX predY M where pre:
    "predict m ?pX (m_vecGoodDataCount t @ replicate (m - n) 1) = Inr predX"
    "predict m ?pY (m_vecGoodDataCount t @ replicate (m - n) 1) = Inr predY"
    "createDistMat (predX, predY) (xs, ys) = Inr M" "length M = m"
    and run: "is_permutation (solve M) m \<longrightarrow>
        (\<exists>cols dX dY.
           collect_new_columns (solve M) (xs, ys) m (int (m - n)) = Inr cols \<and>
           length (fst cols) = m - n \<and> length (snd cols) = m - n \<and>
           backfill_new_slots cols ?new m (int (m - n))
               ((?pX, ?pY), m_vecIDs t, m_vecGoodDataCount t) =
             Inr ((dX, dY), m_vecIDs t @ ?new, m_vecGoodDataCount t @ replicate (m - n) 0) \<and>
           map length dX = replicate 3 m \<and> map length dY = replicate 3 m \<and>
           push_data_intern_diff_ltz solve (int n - int m) t (xs, ys) =
             Inr (False,
                  t\<lparr>m_matData_X := tl (dX @ [arranged (solve M) xs m]),
                    m_matData_Y := tl (dY @ [arranged (solve M) ys m]),
                    m_vecIDs := m_vecIDs t @ ?new,
                    m_vecCurrentAssignment := solve M,
                    m_vecGoodDataCount :=
                      map (\<lambda>g. g + 1) (m_vecGoodDataCount t @ replicate (m - n) 0)\<rparr>))"
    using diff_ltz_run [OF assms, of solve] by blast
  have concl: "card {x. x < m \<and> int m - int (m - n) \<le> solve M ! x} = m - n \<and>
        (\<exists>cols st.
           collect_new_columns (solve M) (xs, ys) m (int (m - n)) = Inr cols \<and>
           length (fst cols) = m - n \<and> length (snd cols) = m - n \<and>
           int (length (fst cols)) = int (m - n) \<and>
           (\<forall>i<m - n. vec_at (fst cols) (int i) = Inr (fst cols ! i) \<and>
                      vec_at (snd cols) (int i) = Inr (snd cols ! i)) \<and>
           backfill_new_slots cols ?new m (int (m - n))
               ((?pX, ?pY), m_vecIDs t, m_vecGoodDataCount t) = Inr st \<and>
           push_data_intern_diff_ltz solve (int n - int m) t (xs, ys) =
             Inr (False,
                  t\<lparr>m_matData_X := tl (fst (fst st) @ [arranged (solve M) xs m]),
                    m_matData_Y := tl (snd (fst st) @ [arranged (solve M) ys m]),
                    m_vecIDs := fst (snd st),
                    m_vecCurrentAssignment := solve M,
                    m_vecGoodDataCount := map (\<lambda>g. g + 1) (snd (snd st))\<rparr>))"
    if perm: "is_permutation (solve M) m"
  proof -
    have len: "length (solve M) = m"
      using perm by (rule is_permutation_length)
    have km: "m - n \<le> m"
      by simp
    have "card {x. x < m \<and> int m - int (m - n) \<le> solve M ! x}
        = length (filter (\<lambda>v. int m - int (m - n) \<le> v) (solve M))"
      using length_filter_conv_card [of "\<lambda>v. int m - int (m - n) \<le> v" "solve M"] len by simp
    then have card: "card {x. x < m \<and> int m - int (m - n) \<le> solve M ! x} = m - n"
      using is_permutation_count_tail [OF perm km] by simp
    obtain cols dX dY where r:
      "collect_new_columns (solve M) (xs, ys) m (int (m - n)) = Inr cols"
      "length (fst cols) = m - n" "length (snd cols) = m - n"
      "backfill_new_slots cols ?new m (int (m - n))
               ((?pX, ?pY), m_vecIDs t, m_vecGoodDataCount t) =
             Inr ((dX, dY), m_vecIDs t @ ?new, m_vecGoodDataCount t @ replicate (m - n) 0)"
      "push_data_intern_diff_ltz solve (int n - int m) t (xs, ys) =
             Inr (False,
                  t\<lparr>m_matData_X := tl (dX @ [arranged (solve M) xs m]),
                    m_matData_Y := tl (dY @ [arranged (solve M) ys m]),
                    m_vecIDs := m_vecIDs t @ ?new,
                    m_vecCurrentAssignment := solve M,
                    m_vecGoodDataCount :=
                      map (\<lambda>g. g + 1) (m_vecGoodDataCount t @ replicate (m - n) 0)\<rparr>)"
      using run perm by blast
    have inb: "\<forall>i<m - n. vec_at (fst cols) (int i) = Inr (fst cols ! i) \<and>
                      vec_at (snd cols) (int i) = Inr (snd cols ! i)"
      using r(2,3) by (simp add: vec_at_nat)
    have w: "int (length (fst cols)) = int (m - n)"
      using r(2) by (simp only:)
    show ?thesis
      using card r inb w
      by (intro conjI exI [of _ cols]
          exI [of _ "((dX, dY), m_vecIDs t @ ?new, m_vecGoodDataCount t @ replicate (m - n) 0)"])
        simp_all
  qed
  show ?thesis
    using pre concl by (intro exI [of _ predX] exI [of _ predY] exI [of _ M]) blast
qed

theorem growth_collects_exactly_k_witness:
  "card {x. x < 4 \<and> int 4 - int (4 - 2) \<le> [3, 2, 1, 0] ! x} = 4 - 2 \<and>
   collect_new_columns [3, 2, 1, 0] ([50, 60, 13, 3], [51, 61, 14, 4]) 4 (int (4 - 2))
     = Inr ([3, 13], [4, 14]) \<and>
   push_data_intern_diff_ltz (\<lambda>M. rev (map int [0..<length M])) (int 2 - int 4)
      \<lparr>m_matData_X = [[0, 10], [1, 11], [2, 12]], m_matData_Y = [[0, 10], [1, 11], [2, 12]],
        m_vecIDs = [0, 2], m_vecCurrentAssignment = [], m_vecGoodDataCount = [3, 3]\<rparr>
      ([50, 60, 13, 3], [51, 61, 14, 4])
     = Inr (False,
        \<lparr>m_matData_X = [[1, 11, 3, 13], [2, 12, 3, 13], [3, 13, 60, 50]],
          m_matData_Y = [[1, 11, 4, 14], [2, 12, 4, 14], [4, 14, 61, 51]],
          m_vecIDs = [0, 2, 1, 3], m_vecCurrentAssignment = [3, 2, 1, 0],
          m_vecGoodDataCount = [4, 4, 1, 1]\<rparr>)"
proof -
  let ?solve = "\<lambda>M :: int list list. rev (map int [0..<length M])"
  let ?t = "\<lparr>m_matData_X = [[0, 10], [1, 11], [2, 12]], m_matData_Y = [[0, 10], [1, 11], [2, 12]],
        m_vecIDs = [0, 2], m_vecCurrentAssignment = [], m_vecGoodDataCount = [3, 3]\<rparr>"
  have sh: "tracker_shape ?t 2"
    by (simp add: tracker_shape_def replicate_numeral_Cons)
  obtain M where M: "length M = 4"
    and imp: "is_permutation (?solve M) 4 \<longrightarrow>
        card {x. x < 4 \<and> int 4 - int (4 - 2) \<le> ?solve M ! x} = 4 - 2 \<and>
        (\<exists>cols. collect_new_columns (?solve M) ([50, 60, 13, 3], [51, 61, 14, 4]) 4 (int (4 - 2))
            = Inr cols \<and> length (fst cols) = 4 - 2)"
    using growth_collects_exactly_k
      [of ?t 2 "[50, 60, 13, 3]" 4 "[51, 61, 14, 4]" ?solve, OF sh]
    by auto
  have perm: "is_permutation (?solve M) 4"
    using solver_ok_permutation [OF solver_ok_rev M] .
  have a: "?solve M = [3, 2, 1, 0]"
    using M by (simp add: upt_rec)
  have card: "card {x. x < 4 \<and> int 4 - int (4 - 2) \<le> [3, 2, 1, 0] ! x} = 4 - 2"
    using imp perm unfolding a by blast
  have col: "collect_new_columns [3, 2, 1, 0] ([50, 60, 13, 3], [51, 61, 14, 4]) 4 (int (4 - 2))
     = Inr ([3, 13], [4, 14])"
    by (simp add: collect_new_columns_def collect_step_def vec_at_def upt_rec)
  have ev: "push_data_intern_diff_ltz ?solve (int 2 - int 4) ?t ([50, 60, 13, 3], [51, 61, 14, 4])
     = Inr (False,
        \<lparr>m_matData_X = [[1, 11, 3, 13], [2, 12, 3, 13], [3, 13, 60, 50]],
          m_matData_Y = [[1, 11, 4, 14], [2, 12, 4, 14], [4, 14, 61, 51]],
          m_vecIDs = [0, 2, 1, 3], m_vecCurrentAssignment = [3, 2, 1, 0],
          m_vecGoodDataCount = [4, 4, 1, 1]\<rparr>)"
    by (simp add: tick_eval growth_eval)
  from card col ev show ?thesis
    by (intro conjI)
qed

subsection \<open>The shape of the tracker after a tick\<close>

lemma pushData_zero:
  assumes "0 < length xs" "length xs = length ys" "m_matData_X t \<noteq> []"
    "length (m_matData_X t ! 0) = n" "length xs = n"
  shows "pushData solve t xs ys = finish (push_data_intern_diff_zero solve n t (xs, ys))"
  using assms by (simp add: pushData_def Let_def)

lemma pushData_first:
  assumes "0 < length xs" "length xs = length ys" "m_matData_X t = []"
  shows "pushData solve t xs ys = Updated (push_data_intern_first_step t (xs, ys))"
  using assms by (simp add: pushData_def Let_def)

lemma pushData_Updated_valid:
  assumes "pushData solve t xs ys = Updated t'"
  shows "0 < length xs \<and> length xs = length ys"
proof (rule ccontr)
  assume "\<not> (0 < length xs \<and> length xs = length ys)"
  then have "pushData solve t xs ys = Refused InvalidArgument t"
    by (auto simp: pushData_def)
  with assms show False
    by simp
qed

lemma tick_first_shape:
  assumes "0 < length xs" "length xs = length ys"
    "m_matData_X t = []" "m_matData_Y t = []" "m_vecGoodDataCount t = []"
  shows "\<exists>t'. pushData solve t xs ys = Updated t' \<and> tracker_shape t' (length xs)"
proof -
  have "pushData solve t xs ys = Updated (push_data_intern_first_step t (xs, ys))"
    using assms(1,2,3) by (rule pushData_first)
  moreover have "tracker_shape (push_data_intern_first_step t (xs, ys)) (length xs)"
    using assms by (simp add: first_step_eq tracker_shape_def numeral_3_eq_3)
  ultimately show ?thesis
    by blast
qed

lemma tick_equal_shape:
  assumes "solver_ok solve" "tracker_shape t n" "0 < n" "length xs = n" "length ys = n"
  shows "\<exists>t'. pushData solve t xs ys = Updated t' \<and> tracker_shape t' (length xs)"
proof -
  have sh: "map length (m_matData_X t) = replicate 3 n" "map length (m_matData_Y t) = replicate 3 n"
    "length (m_vecIDs t) = n" "length (m_vecGoodDataCount t) = n"
    using assms(2) by (simp_all add: tracker_shape_def)
  have fr: "length (m_matData_X t) = 3" "length (m_matData_X t ! 0) = n"
    using shape_frames [OF sh(1)] by simp_all
  have ne: "m_matData_X t \<noteq> []"
    using fr(1) by auto
  obtain a where run: "push_data_intern_diff_zero solve n t (xs, ys) =
       Inr (t\<lparr>m_matData_X := tl (m_matData_X t @ [arranged a xs n]),
              m_matData_Y := tl (m_matData_Y t @ [arranged a ys n]),
              m_vecCurrentAssignment := a,
              m_vecGoodDataCount := map (\<lambda>g. g + 1) (m_vecGoodDataCount t)\<rparr>)"
    using diff_zero_ok [OF assms(1,2,4,5)] by blast
  have "pushData solve t xs ys = finish (push_data_intern_diff_zero solve n t (xs, ys))"
    using assms(3,4,5) ne fr(2) by (intro pushData_zero) simp_all
  moreover have "map length (tl (m_matData_X t @ [arranged a xs n])) = replicate 3 n"
    "map length (tl (m_matData_Y t @ [arranged a ys n])) = replicate 3 n"
    using sh(1,2) by (simp_all add: shape_after_push length_arranged)
  ultimately show ?thesis
    using sh(3,4) assms(4) by (simp add: run finish_def tracker_shape_def)
qed

lemma length_removed_tail:
  assumes "is_permutation a n" "m \<le> n" "length v = n"
  shows "length (removeElemsFromVector v (sort (rev (drop m a)))) = m"
proof -
  have "distinct (rev (drop m a))"
    using is_permutation_distinct [OF assms(1)] by simp
  moreover have "\<forall>q\<in>set (rev (drop m a)). 0 \<le> q \<and> q < int (length v)"
    using is_permutation_set [OF assms(1)] set_drop_subset [of m a] assms(3) by auto
  ultimately have "length (removeElemsFromVector v (sort (rev (drop m a))))
      = length v - length (rev (drop m a))"
    by (rule length_removeElemsFromVector)
  then show ?thesis
    using is_permutation_length [OF assms(1)] assms(2,3) by simp
qed

lemma tick_shrink_shape:
  assumes "solver_ok solve" "tracker_shape t n" "0 < length xs" "length xs = length ys"
    "length xs < n"
  shows "\<exists>t'. pushData solve t xs ys = Updated t' \<and> tracker_shape t' (length xs)"
proof -
  let ?m = "length xs"
  let ?nX = "xs @ replicate (n - ?m) BLIND_VALUE"
  let ?nY = "ys @ replicate (n - ?m) BLIND_VALUE"
  have sh: "map length (m_matData_X t) = replicate 3 n" "map length (m_matData_Y t) = replicate 3 n"
    "length (m_vecIDs t) = n" "length (m_vecGoodDataCount t) = n"
    using assms(2) by (simp_all add: tracker_shape_def)
  have fr: "length (m_matData_X t) = 3" "length (m_matData_X t ! 0) = n"
    using shape_frames [OF sh(1)] by simp_all
  have ne: "m_matData_X t \<noteq> []"
    using fr(1) by auto
  obtain a where perm: "is_permutation a n"
    and run: "push_data_intern_diff_gtz solve (int n - int ?m) t (xs, ys) =
       Inr (t\<lparr>m_matData_X := map (\<lambda>v. removeElemsFromVector v (sort (rev (drop ?m a))))
                 (tl (m_matData_X t @ [arranged a ?nX n])),
              m_matData_Y := map (\<lambda>v. removeElemsFromVector v (sort (rev (drop ?m a))))
                 (tl (m_matData_Y t @ [arranged a ?nY n])),
              m_vecIDs := removeElemsFromVector (m_vecIDs t) (sort (rev (drop ?m a))),
              m_vecCurrentAssignment := a,
              m_vecGoodDataCount := map (\<lambda>g. g + 1)
                 (removeElemsFromVector (m_vecGoodDataCount t) (sort (rev (drop ?m a))))\<rparr>)"
    using diff_gtz_ok [OF assms(1,2) refl assms(4) [symmetric] assms(5)] by blast
  have le: "?m \<le> n"
    using assms(5) by simp
  have rl: "length (removeElemsFromVector v (sort (rev (drop ?m a)))) = ?m"
    if "length v = n" for v :: "int list"
    using perm le that by (rule length_removed_tail)
  have "map length (map (\<lambda>v. removeElemsFromVector v (sort (rev (drop ?m a))))
                 (tl (m_matData_X t @ [arranged a ?nX n]))) = replicate 3 ?m"
    using sh(1) by (intro frames_mapped_shape [OF _ rl]) (simp_all add: shape_after_push length_arranged)
  moreover have "map length (map (\<lambda>v. removeElemsFromVector v (sort (rev (drop ?m a))))
                 (tl (m_matData_Y t @ [arranged a ?nY n]))) = replicate 3 ?m"
    using sh(2) by (intro frames_mapped_shape [OF _ rl]) (simp_all add: shape_after_push length_arranged)
  moreover have "pushData solve t xs ys =
     finish (push_data_intern_diff_gtz solve (int n - int ?m) t (xs, ys))"
    using assms(3,4) ne fr(2) assms(5) by (rule pushData_gtz)
  ultimately show ?thesis
    using rl [OF sh(3)] rl [OF sh(4)] by (simp add: run finish_def tracker_shape_def)
qed

lemma tick_growth_shape:
  assumes "solver_ok solve" "tracker_shape t n" "length xs = length ys" "n < length xs"
  shows "\<exists>t'. pushData solve t xs ys = Updated t' \<and> tracker_shape t' (length xs)"
proof -
  let ?m = "length xs"
  have sh: "map length (m_matData_X t) = replicate 3 n"
    "length (m_vecIDs t) = n" "length (m_vecGoodDataCount t) = n"
    using assms(2) by (simp_all add: tracker_shape_def)
  have fr: "length (m_matData_X t) = 3" "length (m_matData_X t ! 0) = n"
    using shape_frames [OF sh(1)] by simp_all
  have ne: "m_matData_X t \<noteq> []"
    using fr(1) by auto
  have pos: "0 < ?m"
    using assms(4) by linarith
  obtain a dX dY where
    dsh: "map length dX = replicate 3 ?m" "map length dY = replicate 3 ?m"
    and run: "push_data_intern_diff_ltz solve (int n - int ?m) t (xs, ys) =
       Inr (False, t\<lparr>m_matData_X := tl (dX @ [arranged a xs ?m]),
              m_matData_Y := tl (dY @ [arranged a ys ?m]),
              m_vecIDs := m_vecIDs t @ get_n_new_ids (m_vecIDs t) (int (?m - n)),
              m_vecCurrentAssignment := a,
              m_vecGoodDataCount := map (\<lambda>g. g + 1) (m_vecGoodDataCount t @ replicate (?m - n) 0)\<rparr>)"
    using diff_ltz_ok [OF assms(1,2) refl assms(3) [symmetric] assms(4)] by blast
  have "pushData solve t xs ys =
     finish (bindE (push_data_intern_diff_ltz solve (int n - int ?m) t (xs, ys))
               (\<lambda>r. Inr (snd r)))"
    using pos assms(3) ne fr(2) assms(4) by (rule pushData_ltz)
  moreover have "map length (tl (dX @ [arranged a xs ?m])) = replicate 3 ?m"
    "map length (tl (dY @ [arranged a ys ?m])) = replicate 3 ?m"
    using dsh by (simp_all add: shape_after_push length_arranged)
  moreover have "length (get_n_new_ids (m_vecIDs t) (int (?m - n))) = ?m - n"
    by (rule get_n_new_ids_length)
  ultimately show ?thesis
    using sh(2,3) assms(4) by (simp add: run finish_def tracker_shape_def)
qed

text \<open>
  C2. After every \<^verbatim>\<open>pushData\<close> tick that completes, on a new tracker or on one that
  earlier ticks have left, the identities, the freshness counters and every frame of the
  two history deques have the same number \<open>N\<close> of slots, each history deque holds exactly
  three frames, and \<open>N\<close> is the size of the batch just pushed; the tracker is then again
  in a state that ticks leave. A tick on a batch that is not empty and has as many X as Y
  values does complete. The solver is assumed to meet its contract.
\<close>

theorem tick_keeps_shape:
  assumes "solver_ok solve" "tracker_inv t"
  shows "(0 < length xs \<and> length xs = length ys \<longrightarrow> (\<exists>t'. pushData solve t xs ys = Updated t')) \<and>
     (\<forall>t'. pushData solve t xs ys = Updated t' \<longrightarrow>
        tracker_shape t' (length xs) \<and> tracker_inv t')"
proof -
  have ex: "\<exists>t''. pushData solve t xs ys = Updated t'' \<and> tracker_shape t'' (length xs)"
    if v: "0 < length xs" "length xs = length ys"
  proof (cases "m_matData_X t = [] \<and> m_matData_Y t = [] \<and> m_vecIDs t = [] \<and> m_vecGoodDataCount t = []")
    case True
    then show ?thesis
      using v by (intro tick_first_shape) simp_all
  next
    case False
    define n where "n = length (m_vecIDs t)"
    have n: "0 < n" "tracker_shape t n"
      using False assms(2) by (auto simp: tracker_inv_def n_def)
    consider "length xs < n" | "length xs = n" | "n < length xs"
      by linarith
    then show ?thesis
    proof cases
      case 1
      with assms(1) n(2) v show ?thesis
        by (intro tick_shrink_shape)
    next
      case 2
      with assms(1) n v show ?thesis
        by (intro tick_equal_shape) simp_all
    next
      case 3
      with assms(1) n(2) v show ?thesis
        by (intro tick_growth_shape)
    qed
  qed
  have "tracker_shape t' (length xs) \<and> tracker_inv t'" if up: "pushData solve t xs ys = Updated t'" for t'
  proof -
    have v: "0 < length xs" "length xs = length ys"
      using pushData_Updated_valid [OF up] by blast+
    then have sh: "tracker_shape t' (length xs)"
      using ex up by auto
    then have "length (m_vecIDs t') = length xs"
      by (simp add: tracker_shape_def)
    with sh v(1) show ?thesis
      by (simp add: tracker_inv_def)
  qed
  with ex show ?thesis
    by blast
qed

theorem tick_keeps_shape_witness:
  "(\<exists>t'. pushData (\<lambda>M. rev (map int [0..<length M]))
      \<lparr>m_matData_X = [[0, 10, 20], [0, 10, 20], [0, 10, 20]],
        m_matData_Y = [[0, 10, 20], [0, 10, 20], [0, 10, 20]],
        m_vecIDs = [0, 1, 2], m_vecCurrentAssignment = [], m_vecGoodDataCount = [1, 1, 1]\<rparr>
      [21, 11] [21, 11] = Updated t') \<and>
   tracker_shape
     \<lparr>m_matData_X = [[10, 20], [10, 20], [11, 21]], m_matData_Y = [[10, 20], [10, 20], [11, 21]],
       m_vecIDs = [1, 2], m_vecCurrentAssignment = [2, 1, 0], m_vecGoodDataCount = [2, 2]\<rparr>
     (length [21, 11 :: int]) \<and>
   tracker_shape
     \<lparr>m_matData_X = [[0, 10], [0, 10], [0, 10]], m_matData_Y = [[5, 7], [5, 7], [5, 7]],
       m_vecIDs = [0, 1], m_vecCurrentAssignment = [], m_vecGoodDataCount = [1, 1]\<rparr>
     (length [0, 10 :: int])"
proof -
  let ?solve = "\<lambda>M :: int list list. rev (map int [0..<length M])"
  let ?t = "\<lparr>m_matData_X = [[0, 10, 20], [0, 10, 20], [0, 10, 20]],
        m_matData_Y = [[0, 10, 20], [0, 10, 20], [0, 10, 20]],
        m_vecIDs = [0, 1, 2], m_vecCurrentAssignment = [], m_vecGoodDataCount = [1, 1, 1]\<rparr>"
  let ?r = "\<lparr>m_matData_X = [[10, 20], [10, 20], [11, 21]],
        m_matData_Y = [[10, 20], [10, 20], [11, 21]],
        m_vecIDs = [1, 2], m_vecCurrentAssignment = [2, 1, 0], m_vecGoodDataCount = [2, 2]\<rparr>"
  let ?f = "\<lparr>m_matData_X = [[0, 10], [0, 10], [0, 10]], m_matData_Y = [[5, 7], [5, 7], [5, 7]],
       m_vecIDs = [0, 1], m_vecCurrentAssignment = [], m_vecGoodDataCount = [1, 1]\<rparr>"
  have inv: "tracker_inv ?t"
    by (simp add: tracker_inv_def tracker_shape_def replicate_numeral_Cons)
  have ev: "pushData ?solve ?t [21, 11] [21, 11] = Updated ?r"
    by (simp add: tick_eval shrink_eval)
  have inv0: "tracker_inv fresh_tracker"
    by (simp add: tracker_inv_def fresh_tracker_def)
  have ev0: "pushData ?solve fresh_tracker [0, 10] [5, 7] = Updated ?f"
    by (simp add: tick_eval fresh_tracker_def)
  have 1: "\<exists>t'. pushData ?solve ?t [21, 11] [21, 11] = Updated t'"
    using tick_keeps_shape [OF solver_ok_rev inv, of "[21, 11]" "[21, 11]"] by simp
  have 2: "tracker_shape ?r (length [21, 11 :: int])"
    using tick_keeps_shape [OF solver_ok_rev inv, of "[21, 11]" "[21, 11]"] ev by simp
  have 3: "tracker_shape ?f (length [0, 10 :: int])"
    using tick_keeps_shape [OF solver_ok_rev inv0, of "[0, 10]" "[5, 7]"] ev0 by simp
  from 1 2 3 show ?thesis
    by blast
qed

end
